theory Spec2Isabelle
  imports Main
begin

section \<open>The document\<close>

text \<open>
  The script \<^verbatim>\<open>static/web.js\<close> works on the browser's document through jQuery. The
  document is a list of elements in document order; an element is named by its index,
  and the parent of an element precedes it. Only what the script reads or writes is
  kept of an element: its tag (the selectors \<^verbatim>\<open>'tr'\<close>, \<^verbatim>\<open>'table'\<close>, \<^verbatim>\<open>'textarea'\<close> and
  \<^verbatim>\<open>':checked'\<close> look at it), its class list, its \<^verbatim>\<open>checked\<close> property and the
  \<^verbatim>\<open>height\<close> of its inline style.
\<close>

datatype tag_name = Input_Checkbox | Textarea | Tr | Table | Other_Element

datatype css_length = Em nat | Px nat

record element =
  tag :: tag_name
  parent :: "nat option"
  classes :: "string list"
  checked :: bool
  style_height :: "css_length option"

type_synonym dom = "element list"

text \<open>
  \<^verbatim>\<open>scrollHeight\<close> is computed by the rendering engine from the state of the document;
  the script only reads it. It is a parameter of the model: the scroll height, in
  pixels, of an element in a document.
\<close>

type_synonym layout = "dom \<Rightarrow> nat \<Rightarrow> nat"

definition parent_of :: "dom \<Rightarrow> nat \<Rightarrow> nat option" where
  "parent_of d n =
     (if n < length d
      then (case parent (d ! n) of
              None \<Rightarrow> None
            | Some p \<Rightarrow> if p < n then Some p else None)
      else None)"

text \<open>The element and its ancestors, nearest first: the walk along \<^verbatim>\<open>parentNode\<close>.\<close>

function path :: "dom \<Rightarrow> nat \<Rightarrow> nat list" where
  "path d n = n # (case parent_of d n of None \<Rightarrow> [] | Some p \<Rightarrow> path d p)"
  by pat_completeness auto
termination
  by (relation "measure snd") (auto simp: parent_of_def split: option.splits if_splits)

declare path.simps [simp del]

section \<open>The jQuery operations the script calls\<close>

text \<open>
  jQuery is not part of the repository; what the script calls of it is written here as
  its documentation describes it. A jQuery set is a list of elements in document order.
  \<^verbatim>\<open>$(this).is(':checked')\<close> holds for a checkbox whose \<^verbatim>\<open>checked\<close> property is set, and
  for no element of another kind, whatever \<^verbatim>\<open>prop('checked', b)\<close> has stored on it.
\<close>

definition has_class :: "dom \<Rightarrow> nat \<Rightarrow> string \<Rightarrow> bool" where
  "has_class d n c = (c \<in> set (classes (d ! n)))"

definition is_checked :: "dom \<Rightarrow> nat \<Rightarrow> bool" where
  "is_checked d n = (tag (d ! n) = Input_Checkbox \<and> checked (d ! n))"

text \<open>\<^verbatim>\<open>$(this).closest(t)\<close>: the first of the element and its ancestors with that tag.\<close>

definition closest :: "dom \<Rightarrow> tag_name \<Rightarrow> nat \<Rightarrow> nat list" where
  "closest d t n =
     (case List.find (\<lambda>x. tag (d ! x) = t) (path d n) of
        None \<Rightarrow> []
      | Some x \<Rightarrow> [x])"

text \<open>\<^verbatim>\<open>.find('.c')\<close>: the descendants, at any depth, of the elements of the set that
  carry the class.\<close>

definition find_class :: "dom \<Rightarrow> nat list \<Rightarrow> string \<Rightarrow> nat list" where
  "find_class d roots c =
     filter (\<lambda>m. (\<exists>r \<in> set roots. r \<in> set (tl (path d m))) \<and> has_class d m c)
       [0..<length d]"

text \<open>\<^verbatim>\<open>$('.c')\<close> and \<^verbatim>\<open>$('textarea')\<close>.\<close>

definition select_class :: "dom \<Rightarrow> string \<Rightarrow> nat list" where
  "select_class d c = filter (\<lambda>m. has_class d m c) [0..<length d]"

definition select_tag :: "dom \<Rightarrow> tag_name \<Rightarrow> nat list" where
  "select_tag d t = filter (\<lambda>m. tag (d ! m) = t) [0..<length d]"

text \<open>
  A jQuery setter works on each element of the set in turn; on an empty set it does
  nothing, and an index outside the document names no element.
\<close>

definition each :: "(element \<Rightarrow> element) \<Rightarrow> nat list \<Rightarrow> dom \<Rightarrow> dom" where
  "each g xs d = fold (\<lambda>x e. e[x := g (e ! x)]) xs d"

text \<open>
  \<^verbatim>\<open>addClass\<close> appends the class to the class list of an element that lacks it;
  \<^verbatim>\<open>removeClass\<close> removes every occurrence; \<^verbatim>\<open>prop('checked', b)\<close> and
  \<^verbatim>\<open>css('height', v)\<close> assign.
\<close>

definition add_token :: "string \<Rightarrow> string list \<Rightarrow> string list" where
  "add_token c cs = (if c \<in> set cs then cs else cs @ [c])"

definition remove_token :: "string \<Rightarrow> string list \<Rightarrow> string list" where
  "remove_token c cs = filter (\<lambda>z. z \<noteq> c) cs"

definition addClass :: "string \<Rightarrow> nat list \<Rightarrow> dom \<Rightarrow> dom" where
  "addClass c xs d = each (\<lambda>e. e\<lparr>classes := add_token c (classes e)\<rparr>) xs d"

definition removeClass :: "string \<Rightarrow> nat list \<Rightarrow> dom \<Rightarrow> dom" where
  "removeClass c xs d = each (\<lambda>e. e\<lparr>classes := remove_token c (classes e)\<rparr>) xs d"

definition prop_checked :: "bool \<Rightarrow> nat list \<Rightarrow> dom \<Rightarrow> dom" where
  "prop_checked b xs d = each (\<lambda>e. e\<lparr>checked := b\<rparr>) xs d"

definition css_height :: "css_length \<Rightarrow> nat list \<Rightarrow> dom \<Rightarrow> dom" where
  "css_height v xs d = each (\<lambda>e. e\<lparr>style_height := Some v\<rparr>) xs d"

section \<open>The handlers\<close>

text \<open>\<^verbatim>\<open>UpdateRow\<close>, the same in both copies of the script.\<close>

definition UpdateRow :: "dom \<Rightarrow> nat \<Rightarrow> dom" where
  "UpdateRow d this =
     (let checked = is_checked d this in
      if checked then removeClass ''ignore'' (closest d Tr this) d
      else addClass ''ignore'' (closest d Tr this) d)"

text \<open>The handler of \<^verbatim>\<open>.togglesection\<close> (first copy only).\<close>

definition toggleSection :: "dom \<Rightarrow> nat \<Rightarrow> dom" where
  "toggleSection d this =
     (if is_checked d this then removeClass ''ignore'' (closest d Table this) d
      else addClass ''ignore'' (closest d Table this) d)"

text \<open>\<^verbatim>\<open>update\<close> of a text area, the same in both copies.\<close>

definition update :: "layout \<Rightarrow> dom \<Rightarrow> nat \<Rightarrow> dom" where
  "update sh d self =
     (let d1 = css_height (Em 1) [self] d;
          height = sh d1 self
      in css_height (Px height) [self] d1)"

text \<open>The set a \<^verbatim>\<open>.togglechildren\<close> handler works on:
  \<^verbatim>\<open>$(this).closest('table').find('.togglevisible')\<close>.\<close>

definition toggle_targets :: "dom \<Rightarrow> nat \<Rightarrow> nat list" where
  "toggle_targets d this = find_class d (closest d Table this) ''togglevisible''"

text \<open>The handler of \<^verbatim>\<open>.togglechildren\<close> in the second copy: no \<^verbatim>\<open>.change()\<close>.\<close>

definition toggleChildrenB :: "dom \<Rightarrow> nat \<Rightarrow> dom" where
  "toggleChildrenB d this = prop_checked (is_checked d this) (toggle_targets d this) d"

section \<open>Events\<close>

text \<open>
  The ready callback binds the handlers once. \<^verbatim>\<open>$('.togglevisible').each\<close> binds
  \<^verbatim>\<open>UpdateRow\<close> to each element with that class, \<^verbatim>\<open>$('.togglechildren').change(...)\<close>
  and \<^verbatim>\<open>$('.togglesection').change(...)\<close> bind to the elements with those classes, and
  each text area gets \<^verbatim>\<open>update\<close>. No handler changes a tag, a parent or a class other
  than \<^verbatim>\<open>ignore\<close>, so the handlers bound to an element are read from its classes and
  its tag, in the order the script binds them.
\<close>

datatype handler = HUpdateRow | HToggleChildren | HToggleSection | HUpdate

text \<open>The \<^verbatim>\<open>change\<close> handlers of an element in the first copy. The text areas are
  bound last in the ready callback: \<open>tb\<close> says whether they already are.\<close>

definition boundA :: "bool \<Rightarrow> dom \<Rightarrow> nat \<Rightarrow> handler list" where
  "boundA tb d x =
     (if has_class d x ''togglevisible'' then [HUpdateRow] else []) @
     (if has_class d x ''togglechildren'' then [HToggleChildren] else []) @
     (if has_class d x ''togglesection'' then [HToggleSection] else []) @
     (if tb \<and> tag (d ! x) = Textarea then [HUpdate] else [])"

text \<open>
  \<^verbatim>\<open>.change()\<close> on a jQuery set triggers the event on each element in turn; the event
  runs the handlers of the element and then, bubbling, those of each ancestor, with
  \<^verbatim>\<open>this\<close> the element the handler is bound to. The calls are listed before the first
  of them runs: the set is fixed, and no handler changes the tree or what is bound.
\<close>

definition callsA :: "bool \<Rightarrow> dom \<Rightarrow> nat list \<Rightarrow> (handler \<times> nat) list" where
  "callsA tb d xs =
     concat (map (\<lambda>x. concat (map (\<lambda>y. map (\<lambda>h. (h, y)) (boundA tb d y)) (path d x))) xs)"

text \<open>
  Running handler calls in the first copy. The \<^verbatim>\<open>.togglechildren\<close> handler ends with
  \<^verbatim>\<open>.change()\<close> on the set it has just written, which runs handlers again before it
  returns, possibly itself; \<open>k\<close> bounds the depth of these nested triggers, and
  \<open>None\<close> is a call stack that is exhausted.
\<close>

fun runA :: "bool \<Rightarrow> nat \<Rightarrow> layout \<Rightarrow> (handler \<times> nat) list \<Rightarrow> dom \<Rightarrow> dom option" where
  "runA tb k sh [] d = Some d"
| "runA tb k sh ((HUpdateRow, this) # cs) d = runA tb k sh cs (UpdateRow d this)"
| "runA tb k sh ((HToggleSection, this) # cs) d = runA tb k sh cs (toggleSection d this)"
| "runA tb k sh ((HUpdate, self) # cs) d = runA tb k sh cs (update sh d self)"
| "runA tb 0 sh ((HToggleChildren, this) # cs) d = None"
| "runA tb (Suc k) sh ((HToggleChildren, this) # cs) d =
     (let targets = toggle_targets d this;
          d1 = prop_checked (is_checked d this) targets d
      in case runA tb k sh (callsA tb d1 targets) d1 of
           None \<Rightarrow> None
         | Some d2 \<Rightarrow> runA tb (Suc k) sh cs d2)"

text \<open>The handler of \<^verbatim>\<open>.togglechildren\<close> in the first copy.\<close>

definition toggleChildrenA :: "nat \<Rightarrow> layout \<Rightarrow> dom \<Rightarrow> nat \<Rightarrow> dom option" where
  "toggleChildrenA k sh d this = runA True k sh [(HToggleChildren, this)] d"

text \<open>A \<^verbatim>\<open>change\<close> event at an element, once the page is ready, in the first copy.\<close>

definition changeA :: "nat \<Rightarrow> layout \<Rightarrow> dom \<Rightarrow> nat \<Rightarrow> dom option" where
  "changeA k sh d x = runA True k sh (callsA True d [x]) d"

text \<open>The second copy binds no \<^verbatim>\<open>.togglesection\<close> handler and triggers nothing from a
  handler.\<close>

definition boundB :: "dom \<Rightarrow> nat \<Rightarrow> handler list" where
  "boundB d x =
     (if has_class d x ''togglevisible'' then [HUpdateRow] else []) @
     (if has_class d x ''togglechildren'' then [HToggleChildren] else []) @
     (if tag (d ! x) = Textarea then [HUpdate] else [])"

fun runB :: "layout \<Rightarrow> (handler \<times> nat) list \<Rightarrow> dom \<Rightarrow> dom" where
  "runB sh [] d = d"
| "runB sh ((HUpdateRow, this) # cs) d = runB sh cs (UpdateRow d this)"
| "runB sh ((HToggleChildren, this) # cs) d = runB sh cs (toggleChildrenB d this)"
| "runB sh ((HUpdate, self) # cs) d = runB sh cs (update sh d self)"
| "runB sh ((HToggleSection, this) # cs) d = runB sh cs d"

definition changeB :: "layout \<Rightarrow> dom \<Rightarrow> nat \<Rightarrow> dom" where
  "changeB sh d x =
     runB sh (concat (map (\<lambda>y. map (\<lambda>h. (h, y)) (boundB d y)) (path d x))) d"

text \<open>
  The key events of a text area and the resize of the window. Every text area binds
  its own \<^verbatim>\<open>update\<close> to the window, so a resize runs them all in document order.
\<close>

definition key_event :: "layout \<Rightarrow> dom \<Rightarrow> nat \<Rightarrow> dom" where
  "key_event sh d x =
     fold (\<lambda>y e. if tag (e ! y) = Textarea then update sh e y else e) (path d x) d"

definition resize :: "layout \<Rightarrow> dom \<Rightarrow> dom" where
  "resize sh d = fold (\<lambda>y e. update sh e y) (select_tag d Textarea) d"

section \<open>The ready callback\<close>

text \<open>Lines 15 to 20: bind \<^verbatim>\<open>UpdateRow\<close> and call it once on each element.\<close>

definition init_rows :: "dom \<Rightarrow> dom" where
  "init_rows d = fold (\<lambda>x e. UpdateRow e x) (select_class d ''togglevisible'') d"

text \<open>Lines 44 to 59: bind \<^verbatim>\<open>update\<close> and call it once on each text area.\<close>

definition init_textareas :: "layout \<Rightarrow> dom \<Rightarrow> dom" where
  "init_textareas sh d = fold (\<lambda>x e. update sh e x) (select_tag d Textarea) d"

text \<open>Line 41, \<^verbatim>\<open>$('.togglesection').change()\<close>, runs before the text areas are bound.\<close>

definition init_sections :: "nat \<Rightarrow> layout \<Rightarrow> dom \<Rightarrow> dom option" where
  "init_sections k sh d = runA False k sh (callsA False d (select_class d ''togglesection'')) d"

definition initA :: "nat \<Rightarrow> layout \<Rightarrow> dom \<Rightarrow> dom option" where
  "initA k sh d =
     (case init_sections k sh (init_rows d) of
        None \<Rightarrow> None
      | Some d2 \<Rightarrow> Some (init_textareas sh d2))"

definition initB :: "layout \<Rightarrow> dom \<Rightarrow> dom" where
  "initB sh d = init_textareas sh (init_rows d)"

section \<open>Example documents\<close>

definition el :: "tag_name \<Rightarrow> nat option \<Rightarrow> string list \<Rightarrow> bool \<Rightarrow> element" where
  "el t p cs b = \<lparr>tag = t, parent = p, classes = cs, checked = b, style_height = None\<rparr>"

text \<open>A table with a children toggle (element 2, just unchecked by the user) in its
  head row and two rows, each with a checked row toggle (elements 4 and 6).\<close>

definition two_rows :: dom where
  "two_rows =
     [el Table None [] False,
      el Tr (Some 0) [] False,
      el Input_Checkbox (Some 1) [''togglechildren''] False,
      el Tr (Some 0) [''odd''] False,
      el Input_Checkbox (Some 3) [''togglevisible''] True,
      el Tr (Some 0) [] False,
      el Input_Checkbox (Some 5) [''togglevisible''] True]"

text \<open>A row toggle outside any row.\<close>

definition loose :: dom where
  "loose =
     [el Other_Element None [''ignore''] False,
      el Input_Checkbox (Some 0) [''togglevisible''] False]"

text \<open>An outer table (children toggle 2, row toggle 11) with an inner table (children
  toggle 7, row toggle 9) in one of its cells, and a second table (row toggle 14).\<close>

definition nested :: dom where
  "nested =
     [el Table None [] False,
      el Tr (Some 0) [] False,
      el Input_Checkbox (Some 1) [''togglechildren''] True,
      el Tr (Some 0) [] False,
      el Other_Element (Some 3) [] False,
      el Table (Some 4) [] False,
      el Tr (Some 5) [] False,
      el Input_Checkbox (Some 6) [''togglechildren''] False,
      el Tr (Some 5) [''ignore''] False,
      el Input_Checkbox (Some 8) [''togglevisible''] False,
      el Tr (Some 0) [''ignore''] False,
      el Input_Checkbox (Some 10) [''togglevisible''] False,
      el Table None [] False,
      el Tr (Some 12) [''ignore''] False,
      el Input_Checkbox (Some 13) [''togglevisible''] False]"

text \<open>A rendering engine for which every scroll height is 0.\<close>

definition flat :: layout where
  "flat d n = 0"

text \<open>A table with a section toggle (element 2) in its head row, an unchecked row toggle
  (4) in a row that does not carry \<^verbatim>\<open>ignore\<close> yet, a checked one (6) in a row that does,
  and a text area (7).\<close>

definition fresh :: dom where
  "fresh =
     [el Table None [] False,
      el Tr (Some 0) [] False,
      el Input_Checkbox (Some 1) [''togglesection''] False,
      el Tr (Some 0) [] False,
      el Input_Checkbox (Some 3) [''togglevisible''] False,
      el Tr (Some 0) [''ignore''] False,
      el Input_Checkbox (Some 5) [''togglevisible''] True,
      el Textarea None [] False]"

text \<open>One row with two row toggles in two cells, the first unchecked, the second
  checked.\<close>

definition shared_row :: dom where
  "shared_row =
     [el Table None [] False,
      el Tr (Some 0) [] False,
      el Other_Element (Some 1) [] False,
      el Input_Checkbox (Some 2) [''togglevisible''] False,
      el Other_Element (Some 1) [] False,
      el Input_Checkbox (Some 4) [''togglevisible''] True]"

text \<open>One table with two section toggles, the first unchecked, the second checked.\<close>

definition shared_table :: dom where
  "shared_table =
     [el Table None [] False,
      el Tr (Some 0) [] False,
      el Input_Checkbox (Some 1) [''togglesection''] False,
      el Input_Checkbox (Some 1) [''togglesection''] True]"

text \<open>A rendering engine whose scroll height depends on the inline height it finds.\<close>

definition collapsing :: layout where
  "collapsing d n = (case style_height (d ! n) of Some (Em k) \<Rightarrow> 34 | _ \<Rightarrow> 200)"

text \<open>A checkbox that is both a row toggle and a children toggle, inside a table.\<close>

definition both_toggles :: dom where
  "both_toggles =
     [el Table None [] False,
      el Tr (Some 0) [] False,
      el Input_Checkbox (Some 1) [''togglevisible'', ''togglechildren''] True]"

section \<open>Notions for the statements and the proofs\<close>

text \<open>Two documents with the same tree and the same classes but for \<^verbatim>\<open>ignore\<close>.\<close>

definition same_marks :: "dom \<Rightarrow> dom \<Rightarrow> bool" where
  "same_marks d e =
     (length e = length d \<and>
      (\<forall>n. tag (e ! n) = tag (d ! n) \<and> parent (e ! n) = parent (d ! n) \<and>
           set (classes (e ! n)) - {''ignore''} = set (classes (d ! n)) - {''ignore''}))"

text \<open>The ancestors of an element, by the parent relation alone.\<close>

inductive ancestor :: "dom \<Rightarrow> nat \<Rightarrow> nat \<Rightarrow> bool" for d where
  parent: "parent_of d n = Some p \<Longrightarrow> ancestor d n p"
| grand: "parent_of d n = Some p \<Longrightarrow> ancestor d p a \<Longrightarrow> ancestor d n a"

text \<open>A children toggle that is on the event path of one of its own targets: its handler
  triggers itself.\<close>

definition reenters :: "dom \<Rightarrow> nat \<Rightarrow> bool" where
  "reenters d y = (\<exists>u \<in> set (toggle_targets d y). y \<in> set (path d u))"

text \<open>What a handler call does when it triggers nothing.\<close>

fun plain_step :: "layout \<Rightarrow> handler \<times> nat \<Rightarrow> dom \<Rightarrow> dom" where
  "plain_step sh (HUpdateRow, y) d = UpdateRow d y"
| "plain_step sh (HToggleSection, y) d = toggleSection d y"
| "plain_step sh (HUpdate, y) d = update sh d y"
| "plain_step sh (HToggleChildren, y) d = d"

text \<open>What a handler call of the first copy does when it returns.\<close>

fun stepA :: "bool \<Rightarrow> layout \<Rightarrow> handler \<times> nat \<Rightarrow> dom \<Rightarrow> dom" where
  "stepA tb sh (HToggleChildren, y) d =
     (let targets = toggle_targets d y;
          d1 = prop_checked (is_checked d y) targets d
      in fold (plain_step sh) (callsA tb d1 targets) d1)"
| "stepA tb sh (h, y) d = plain_step sh (h, y) d"

text \<open>Calls none of whose children toggles can write and return.\<close>

definition harmless :: "dom \<Rightarrow> (handler \<times> nat) list \<Rightarrow> bool" where
  "harmless d cs =
     (\<forall>y. (HToggleChildren, y) \<in> set cs \<longrightarrow>
          has_class d y ''togglechildren'' \<and> (toggle_targets d y = [] \<or> reenters d y))"

text \<open>No children toggle with something to write lies on the event path of a target.\<close>

definition settles :: "dom \<Rightarrow> nat \<Rightarrow> bool" where
  "settles d this =
     (\<forall>t \<in> set (toggle_targets d this). \<forall>z \<in> set (path d t).
        has_class d z ''togglechildren'' \<longrightarrow> toggle_targets d z = [])"

text \<open>The two handlers that write the class: which tag they look for, and the class
  they are bound by.\<close>

definition writer :: "handler \<Rightarrow> tag_name \<Rightarrow> string \<Rightarrow> bool" where
  "writer h tg mark =
     (h = HUpdateRow \<and> tg = Tr \<and> mark = ''togglevisible'' \<or>
      h = HToggleSection \<and> tg = Table \<and> mark = ''togglesection'')"

text \<open>Element \<open>c\<close> is the only element bound to the writer \<open>h\<close> whose closest element
  with tag \<open>tg\<close> is \<open>R\<close>.\<close>

definition sole :: "handler \<Rightarrow> tag_name \<Rightarrow> string \<Rightarrow> dom \<Rightarrow> nat \<Rightarrow> nat \<Rightarrow> bool" where
  "sole h tg mark d c R =
     (writer h tg mark \<and> c < length d \<and> has_class d c mark \<and> closest d tg c = [R] \<and>
      (\<forall>y \<in> set (select_class d mark). closest d tg y = [R] \<longrightarrow> y = c))"

text \<open>The writer calls of a list are on elements of the document that carry the class.\<close>

definition proper :: "handler \<Rightarrow> string \<Rightarrow> dom \<Rightarrow> (handler \<times> nat) list \<Rightarrow> bool" where
  "proper h mark d cs = (\<forall>y. (h, y) \<in> set cs \<longrightarrow> y \<in> set (select_class d mark))"

text \<open>The handler \<open>h\<close> is the only one a \<^verbatim>\<open>change\<close> event at \<open>x\<close> runs: \<open>x\<close> binds it and
  nothing else, and no ancestor of \<open>x\<close> binds anything.\<close>

definition alone :: "handler \<Rightarrow> dom \<Rightarrow> nat \<Rightarrow> bool" where
  "alone h d x = (boundA True d x = [h] \<and> (\<forall>y \<in> set (tl (path d x)). boundA True d y = []))"

text \<open>No element that binds a handler has a child: checkboxes are void elements and text
  areas hold text only.\<close>

definition bound_leaves :: "dom \<Rightarrow> bool" where
  "bound_leaves d =
     (\<forall>m \<in> set [0..<length d].
        case parent_of d m of None \<Rightarrow> True | Some p \<Rightarrow> boundA True d p = [])"

text \<open>Every children toggle that \<^verbatim>\<open>$('.togglesection').change()\<close> reaches returns.\<close>

definition sections_settle :: "dom \<Rightarrow> bool" where
  "sections_settle d =
     (\<forall>s \<in> set (select_class d ''togglesection''). \<forall>y \<in> set (path d s).
        has_class d y ''togglechildren'' \<longrightarrow> settles d y)"

text \<open>The calls of the ready callback, in order.\<close>

definition row_calls :: "dom \<Rightarrow> (handler \<times> nat) list" where
  "row_calls d = map (Pair HUpdateRow) (select_class d ''togglevisible'')"

definition section_calls :: "dom \<Rightarrow> (handler \<times> nat) list" where
  "section_calls d = callsA False d (select_class d ''togglesection'')"

definition textarea_calls :: "dom \<Rightarrow> (handler \<times> nat) list" where
  "textarea_calls d = map (Pair HUpdate) (select_tag d Textarea)"

section \<open>Paths\<close>

lemma parent_of_less: "parent_of d n = Some p \<Longrightarrow> p < n"
  by (auto simp: parent_of_def split: option.splits if_splits)

lemma path_le: "x \<in> set (path d n) \<Longrightarrow> x \<le> n"
proof (induction d n rule: path.induct)
  case (1 d n)
  show ?case
  proof (cases "parent_of d n")
    case None
    with "1.prems" show ?thesis by (simp add: path.simps [of d n])
  next
    case (Some p)
    with "1.prems" have "x = n \<or> x \<in> set (path d p)"
      by (simp add: path.simps [of d n])
    then show ?thesis
    proof
      assume "x = n" then show ?thesis by simp
    next
      assume "x \<in> set (path d p)"
      with "1.IH" Some have "x \<le> p" by simp
      with parent_of_less [OF Some] show ?thesis by simp
    qed
  qed
qed

lemma path_self: "n \<in> set (path d n)"
  by (subst path.simps) simp

lemma tl_path: "tl (path d n) = (case parent_of d n of None \<Rightarrow> [] | Some p \<Rightarrow> path d p)"
  by (subst path.simps) simp

lemma tl_path_less: "x \<in> set (tl (path d n)) \<Longrightarrow> x < n"
proof (cases "parent_of d n")
  case None
  assume "x \<in> set (tl (path d n))"
  with None show ?thesis by (simp add: tl_path)
next
  case (Some p)
  assume "x \<in> set (tl (path d n))"
  with Some have "x \<in> set (path d p)" by (simp add: tl_path)
  then have "x \<le> p" by (rule path_le)
  with parent_of_less [OF Some] show ?thesis by simp
qed

lemma path_cong:
  assumes "\<And>m. parent_of e m = parent_of d m"
  shows "path e n = path d n"
proof (induction n rule: less_induct)
  case (less n)
  show ?case
  proof (cases "parent_of d n")
    case None
    then show ?thesis by (simp add: path.simps [of _ n] assms)
  next
    case (Some p)
    then have "p < n" by (rule parent_of_less)
    then have "path e p = path d p" by (rule less.IH)
    with Some show ?thesis by (simp add: path.simps [of _ n] assms)
  qed
qed

section \<open>Setters\<close>

lemma length_each [simp]: "length (each g xs d) = length d"
  unfolding each_def by (induction xs arbitrary: d) simp_all

lemma nth_each:
  assumes idem: "\<And>e. g (g e) = g e"
  shows "each g xs d ! n = (if n \<in> set xs \<and> n < length d then g (d ! n) else d ! n)"
proof (induction xs arbitrary: d)
  case Nil
  show ?case by (simp add: each_def)
next
  case (Cons x xs)
  have step: "each g (x # xs) d = each g xs (d[x := g (d ! x)])"
    by (simp add: each_def)
  have upd: "d[x := g (d ! x)] ! n = (if n = x \<and> x < length d then g (d ! x) else d ! n)"
    by (cases "x < length d") (auto simp: nth_list_update list_update_beyond not_less)
  show ?case
    unfolding step Cons.IH upd by (auto simp: idem)
qed

lemma nth_addClass:
  "addClass c xs d ! n =
     (if n \<in> set xs \<and> n < length d then (d ! n)\<lparr>classes := add_token c (classes (d ! n))\<rparr>
      else d ! n)"
  unfolding addClass_def by (rule nth_each) (simp add: add_token_def)

lemma nth_removeClass:
  "removeClass c xs d ! n =
     (if n \<in> set xs \<and> n < length d
      then (d ! n)\<lparr>classes := remove_token c (classes (d ! n))\<rparr>
      else d ! n)"
  unfolding removeClass_def by (rule nth_each) (simp add: remove_token_def)

lemma nth_prop_checked:
  "prop_checked b xs d ! n =
     (if n \<in> set xs \<and> n < length d then (d ! n)\<lparr>checked := b\<rparr> else d ! n)"
  unfolding prop_checked_def by (rule nth_each) simp

lemma nth_css_height:
  "css_height v xs d ! n =
     (if n \<in> set xs \<and> n < length d then (d ! n)\<lparr>style_height := Some v\<rparr> else d ! n)"
  unfolding css_height_def by (rule nth_each) simp

lemma length_addClass [simp]: "length (addClass c xs d) = length d"
  by (simp add: addClass_def)

lemma length_removeClass [simp]: "length (removeClass c xs d) = length d"
  by (simp add: removeClass_def)

lemma length_prop_checked [simp]: "length (prop_checked b xs d) = length d"
  by (simp add: prop_checked_def)

lemma length_css_height [simp]: "length (css_height v xs d) = length d"
  by (simp add: css_height_def)

lemma set_add_token: "set (add_token c cs) = insert c (set cs)"
  by (auto simp: add_token_def)

lemma set_remove_token: "set (remove_token c cs) = set cs - {c}"
  by (auto simp: remove_token_def)

section \<open>What the handlers keep\<close>

lemma same_marks_refl [simp]: "same_marks d d"
  by (simp add: same_marks_def)

lemma same_marks_trans: "same_marks d e \<Longrightarrow> same_marks e f \<Longrightarrow> same_marks d f"
  by (simp add: same_marks_def)

lemma same_marks_sym: "same_marks d e \<Longrightarrow> same_marks e d"
  by (simp add: same_marks_def)

lemma same_marks_addClass: "same_marks d (addClass ''ignore'' xs d)"
  by (simp add: same_marks_def nth_addClass set_add_token)

lemma same_marks_removeClass: "same_marks d (removeClass ''ignore'' xs d)"
  by (auto simp: same_marks_def nth_removeClass set_remove_token)

lemma same_marks_prop_checked: "same_marks d (prop_checked b xs d)"
  by (simp add: same_marks_def nth_prop_checked)

lemma same_marks_css_height: "same_marks d (css_height v xs d)"
  by (simp add: same_marks_def nth_css_height)

lemma same_marks_length: "same_marks d e \<Longrightarrow> length e = length d"
  by (simp add: same_marks_def)

lemma same_marks_tag: "same_marks d e \<Longrightarrow> tag (e ! n) = tag (d ! n)"
  by (simp add: same_marks_def)

lemma same_marks_parent_of: "same_marks d e \<Longrightarrow> parent_of e n = parent_of d n"
  by (simp add: same_marks_def parent_of_def)

lemma same_marks_path: "same_marks d e \<Longrightarrow> path e n = path d n"
  by (rule path_cong) (rule same_marks_parent_of)

lemma same_marks_closest: "same_marks d e \<Longrightarrow> closest e t n = closest d t n"
  by (simp add: closest_def same_marks_path same_marks_tag)

lemma same_marks_has_class:
  "same_marks d e \<Longrightarrow> c \<noteq> ''ignore'' \<Longrightarrow> has_class e n c = has_class d n c"
  by (auto simp: same_marks_def has_class_def)

lemma same_marks_find_class:
  "same_marks d e \<Longrightarrow> c \<noteq> ''ignore'' \<Longrightarrow> find_class e rs c = find_class d rs c"
  by (simp add: find_class_def same_marks_path same_marks_has_class same_marks_length)

lemma same_marks_toggle_targets: "same_marks d e \<Longrightarrow> toggle_targets e c = toggle_targets d c"
  by (simp add: toggle_targets_def same_marks_closest same_marks_find_class)

lemma same_marks_select_class:
  "same_marks d e \<Longrightarrow> c \<noteq> ''ignore'' \<Longrightarrow> select_class e c = select_class d c"
  by (simp add: select_class_def same_marks_has_class same_marks_length)

lemma same_marks_select_tag: "same_marks d e \<Longrightarrow> select_tag e t = select_tag d t"
  by (simp add: select_tag_def same_marks_tag same_marks_length)

lemma same_marks_boundA: "same_marks d e \<Longrightarrow> boundA tb e x = boundA tb d x"
  by (simp add: boundA_def same_marks_has_class same_marks_tag)

lemma same_marks_boundB: "same_marks d e \<Longrightarrow> boundB e x = boundB d x"
  by (simp add: boundB_def same_marks_has_class same_marks_tag)

lemma same_marks_callsA: "same_marks d e \<Longrightarrow> callsA tb e xs = callsA tb d xs"
  by (simp add: callsA_def same_marks_path same_marks_boundA)

lemma same_marks_UpdateRow: "same_marks d (UpdateRow d c)"
  by (simp add: UpdateRow_def Let_def same_marks_addClass same_marks_removeClass)

lemma same_marks_toggleSection: "same_marks d (toggleSection d c)"
  by (simp add: toggleSection_def same_marks_addClass same_marks_removeClass)

lemma same_marks_update: "same_marks d (update sh d c)"
  unfolding update_def Let_def
  by (rule same_marks_trans [OF same_marks_css_height same_marks_css_height])

lemma same_marks_toggleChildrenB: "same_marks d (toggleChildrenB d c)"
  by (simp add: toggleChildrenB_def same_marks_prop_checked)

lemma same_marks_runA: "runA tb k sh cs d = Some e \<Longrightarrow> same_marks d e"
proof (induction tb k sh cs d arbitrary: e rule: runA.induct)
  case (1 tb k sh d)
  then show ?case by simp
next
  case (2 tb k sh this cs d)
  then show ?case
    by (auto intro: same_marks_trans [OF same_marks_UpdateRow])
next
  case (3 tb k sh this cs d)
  then show ?case
    by (auto intro: same_marks_trans [OF same_marks_toggleSection])
next
  case (4 tb k sh self cs d)
  then show ?case
    by (auto intro: same_marks_trans [OF same_marks_update])
next
  case (5 tb sh this cs d)
  then show ?case by simp
next
  case (6 tb k sh this cs d)
  define d1 where "d1 = prop_checked (is_checked d this) (toggle_targets d this) d"
  from "6.prems" obtain d2 where
    r1: "runA tb k sh (callsA tb d1 (toggle_targets d this)) d1 = Some d2"
    and r2: "runA tb (Suc k) sh cs d2 = Some e"
    by (auto simp: Let_def d1_def split: option.splits)
  have "same_marks d d1" by (simp add: d1_def same_marks_prop_checked)
  moreover have "same_marks d1 d2"
    using "6.IH"(1) [OF refl refl, of d2] r1 by (simp add: d1_def)
  moreover have "same_marks d2 e"
    using "6.IH"(2) [OF refl refl _ r2] r1 by (simp add: d1_def)
  ultimately show ?case by (blast intro: same_marks_trans)
qed

lemma closest_cases:
  obtains "closest d t n = []" "\<forall>x \<in> set (path d n). tag (d ! x) \<noteq> t"
  | r where "closest d t n = [r]" "r \<in> set (path d n)" "tag (d ! r) = t"
proof (cases "List.find (\<lambda>x. tag (d ! x) = t) (path d n)")
  case None
  then have "closest d t n = []" by (simp add: closest_def)
  moreover from None have "\<forall>x \<in> set (path d n). tag (d ! x) \<noteq> t"
    by (auto simp: find_None_iff)
  ultimately show ?thesis by (rule that(1))
next
  case (Some r)
  then have "closest d t n = [r]" by (simp add: closest_def)
  moreover from Some have "r \<in> set (path d n)" "tag (d ! r) = t"
    by (auto simp: find_Some_iff in_set_conv_nth)
  ultimately show ?thesis by (rule that(2))
qed

lemma closest_Nil_iff: "closest d t n = [] \<longleftrightarrow> (\<forall>x \<in> set (path d n). tag (d ! x) \<noteq> t)"
  by (rule closest_cases [of d t n]) auto

lemma closest_in_path: "r \<in> set (closest d t n) \<Longrightarrow> r \<in> set (path d n) \<and> tag (d ! r) = t"
  by (rule closest_cases [of d t n]) auto

lemma closest_less: "r \<in> set (closest d t n) \<Longrightarrow> n < length d \<Longrightarrow> r < length d"
  using closest_in_path [of r d t n] path_le [of r d n] by simp

lemma nth_UpdateRow:
  "UpdateRow d c ! n =
     (if n \<in> set (closest d Tr c) \<and> n < length d
      then (d ! n)\<lparr>classes := (if is_checked d c then remove_token ''ignore'' (classes (d ! n))
                               else add_token ''ignore'' (classes (d ! n)))\<rparr>
      else d ! n)"
  by (simp add: UpdateRow_def Let_def nth_addClass nth_removeClass)

lemma length_UpdateRow [simp]: "length (UpdateRow d c) = length d"
  by (simp add: UpdateRow_def Let_def)

lemma is_checked_UpdateRow [simp]: "is_checked (UpdateRow d c) n = is_checked d n"
  by (simp add: is_checked_def nth_UpdateRow)

lemma closest_UpdateRow [simp]: "closest (UpdateRow d c) t n = closest d t n"
  by (rule same_marks_closest) (rule same_marks_UpdateRow)

lemma UpdateRow_no_row: "closest d Tr c = [] \<Longrightarrow> UpdateRow d c = d"
  by (simp add: UpdateRow_def Let_def addClass_def removeClass_def each_def)

lemma UpdateRow_idem: "UpdateRow (UpdateRow d c) c = UpdateRow d c"
  by (rule nth_equalityI) (simp_all add: nth_UpdateRow add_token_def remove_token_def)

lemma has_class_UpdateRow_row:
  "r \<in> set (closest d Tr c) \<Longrightarrow> r < length d \<Longrightarrow>
   has_class (UpdateRow d c) r ''ignore'' \<longleftrightarrow> \<not> is_checked d c"
  by (simp add: has_class_def nth_UpdateRow set_add_token set_remove_token)

section \<open>Ancestors, targets and calls\<close>

lemma set_path: "set (path d n) = insert n (set (tl (path d n)))"
  by (subst path.simps) (simp add: tl_path)

lemma in_path_cases:
  assumes "y \<in> set (path d n)"
  obtains "y = n" | p where "parent_of d n = Some p" "y \<in> set (path d p)"
proof (cases "parent_of d n")
  case None
  with assms have "y = n" by (simp add: path.simps [of d n])
  then show ?thesis by (rule that(1))
next
  case (Some p)
  with assms have "y = n \<or> y \<in> set (path d p)" by (simp add: path.simps [of d n])
  with Some that show ?thesis by blast
qed

lemma in_tl_path_cases:
  assumes "y \<in> set (tl (path d n))"
  obtains p where "parent_of d n = Some p" "y \<in> set (path d p)"
  using assms by (cases "parent_of d n") (auto simp: tl_path)

lemma path_trans: "y \<in> set (path d n) \<Longrightarrow> x \<in> set (path d y) \<Longrightarrow> x \<in> set (path d n)"
proof (induction n rule: less_induct)
  case (less n)
  show ?case
  proof (cases "y = n")
    case True
    with less.prems show ?thesis by simp
  next
    case False
    with less.prems(1) obtain p where p: "parent_of d n = Some p" and y: "y \<in> set (path d p)"
      by (auto elim: in_path_cases)
    from p have "p < n" by (rule parent_of_less)
    from less.IH [OF this y less.prems(2)] have "x \<in> set (path d p)" .
    with p show ?thesis by (subst path.simps) simp
  qed
qed

lemma tl_path_trans:
  assumes "y \<in> set (tl (path d n))" and "x \<in> set (path d y)"
  shows "x \<in> set (tl (path d n))"
proof -
  from assms(1) obtain p where p: "parent_of d n = Some p" and y: "y \<in> set (path d p)"
    by (rule in_tl_path_cases)
  from path_trans [OF y assms(2)] p show ?thesis by (simp add: tl_path)
qed

lemma path_antisym: "y \<in> set (path d n) \<Longrightarrow> n \<in> set (path d y) \<Longrightarrow> y = n"
  using path_le [of y d n] path_le [of n d y] by simp

lemma ancestor_in_tl_path: "ancestor d n a \<Longrightarrow> a \<in> set (tl (path d n))"
proof (induction rule: ancestor.induct)
  case (parent n p)
  then show ?case by (simp add: tl_path path_self)
next
  case (grand n p a)
  from grand.IH have "a \<in> set (path d p)" by (simp add: set_path)
  with grand.hyps(1) show ?case by (simp add: tl_path)
qed

lemma path_ancestor: "a \<in> set (path d n) \<Longrightarrow> a = n \<or> ancestor d n a"
proof (induction n rule: less_induct)
  case (less n)
  show ?case
  proof (cases "a = n")
    case True
    then show ?thesis by simp
  next
    case False
    with less.prems obtain p where p: "parent_of d n = Some p" and a: "a \<in> set (path d p)"
      by (auto elim: in_path_cases)
    from p have "p < n" by (rule parent_of_less)
    from less.IH [OF this a] have "a = p \<or> ancestor d p a" .
    with p show ?thesis by (auto intro: ancestor.intros)
  qed
qed

lemma ancestor_iff_path: "ancestor d n a \<longleftrightarrow> a \<in> set (tl (path d n))"
proof
  assume "ancestor d n a"
  then show "a \<in> set (tl (path d n))" by (rule ancestor_in_tl_path)
next
  assume a: "a \<in> set (tl (path d n))"
  then have "a < n" by (rule tl_path_less)
  moreover from a have "a \<in> set (path d n)" by (simp add: set_path)
  ultimately show "ancestor d n a" using path_ancestor [of a d n] by simp
qed

lemma find_class_Nil [simp]: "find_class d [] c = []"
  by (simp add: find_class_def)

lemma in_find_class:
  "m \<in> set (find_class d rs c) \<longleftrightarrow>
     m < length d \<and> has_class d m c \<and> (\<exists>r \<in> set rs. r \<in> set (tl (path d m)))"
  by (auto simp: find_class_def)

lemma in_toggle_targets:
  "t \<in> set (toggle_targets d c) \<longleftrightarrow>
     t < length d \<and> has_class d t ''togglevisible'' \<and>
     (\<exists>T \<in> set (closest d Table c). T \<in> set (tl (path d t)))"
  by (simp add: toggle_targets_def in_find_class)

lemma distinct_toggle_targets: "distinct (toggle_targets d c)"
  by (simp add: toggle_targets_def find_class_def)

lemma in_callsA:
  "(h, y) \<in> set (callsA tb d xs) \<longleftrightarrow> (\<exists>x \<in> set xs. y \<in> set (path d x) \<and> h \<in> set (boundA tb d y))"
  by (auto simp: callsA_def)

lemma in_boundA:
  "HUpdateRow \<in> set (boundA tb d y) \<longleftrightarrow> has_class d y ''togglevisible''"
  "HToggleChildren \<in> set (boundA tb d y) \<longleftrightarrow> has_class d y ''togglechildren''"
  "HToggleSection \<in> set (boundA tb d y) \<longleftrightarrow> has_class d y ''togglesection''"
  "HUpdate \<in> set (boundA tb d y) \<longleftrightarrow> tb \<and> tag (d ! y) = Textarea"
  by (simp_all add: boundA_def)

text \<open>A nested children toggle met while the event of a target bubbles either has
  nothing to write or meets itself again.\<close>

lemma cascade_item:
  assumes t: "t \<in> set (toggle_targets d c)" and y: "y \<in> set (path d t)"
  shows "toggle_targets d y = [] \<or> (\<exists>u \<in> set (toggle_targets d y). y \<in> set (path d u))"
proof (rule closest_cases [of d Table y])
  assume "closest d Table y = []"
  then show ?thesis by (simp add: toggle_targets_def)
next
  fix T assume T: "closest d Table y = [T]" "T \<in> set (path d y)" "tag (d ! T) = Table"
  from t have tl: "t < length d" and tv: "has_class d t ''togglevisible''"
    by (simp_all add: in_toggle_targets)
  from path_trans [OF y T(2)] have Tt: "T \<in> set (path d t)" .
  show ?thesis
  proof (cases "T = t")
    case False
    with Tt have "T \<in> set (tl (path d t))" by (simp add: set_path [of d t])
    with tl tv T(1) have "t \<in> set (toggle_targets d y)" by (simp add: in_toggle_targets)
    with y show ?thesis by blast
  next
    case True
    with T(2) have "t \<in> set (path d y)" by simp
    with y have yt: "y = t" by (rule path_antisym)
    show ?thesis
    proof (cases "toggle_targets d y")
      case Nil
      then show ?thesis by simp
    next
      case (Cons u us)
      then have "u \<in> set (toggle_targets d y)" by simp
      then have "T \<in> set (tl (path d u))" using T(1) by (simp add: in_toggle_targets)
      with True yt have "y \<in> set (path d u)" by (simp add: set_path [of d u])
      with \<open>u \<in> set (toggle_targets d y)\<close> show ?thesis by blast
    qed
  qed
qed

lemma same_marks_reenters: "same_marks d e \<Longrightarrow> reenters e y = reenters d y"
  by (simp add: reenters_def same_marks_toggle_targets same_marks_path)

lemma runA_reenters:
  assumes "(HToggleChildren, y) \<in> set cs" and "reenters d y"
    and "has_class d y ''togglechildren''"
  shows "runA tb k sh cs d = None"
  using assms
proof (induction tb k sh cs d rule: runA.induct)
  case (1 tb k sh d)
  then show ?case by simp
next
  case (2 tb k sh this cs d)
  let ?e = "UpdateRow d this"
  have m: "same_marks d ?e" by (rule same_marks_UpdateRow)
  from "2.prems" have "(HToggleChildren, y) \<in> set cs" by simp
  moreover from "2.prems" m have "reenters ?e y" by (simp add: same_marks_reenters)
  moreover from "2.prems" m have "has_class ?e y ''togglechildren''"
    by (simp add: same_marks_has_class)
  ultimately show ?case using "2.IH" by simp
next
  case (3 tb k sh this cs d)
  let ?e = "toggleSection d this"
  have m: "same_marks d ?e" by (rule same_marks_toggleSection)
  from "3.prems" have "(HToggleChildren, y) \<in> set cs" by simp
  moreover from "3.prems" m have "reenters ?e y" by (simp add: same_marks_reenters)
  moreover from "3.prems" m have "has_class ?e y ''togglechildren''"
    by (simp add: same_marks_has_class)
  ultimately show ?case using "3.IH" by simp
next
  case (4 tb k sh self cs d)
  let ?e = "update sh d self"
  have m: "same_marks d ?e" by (rule same_marks_update)
  from "4.prems" have "(HToggleChildren, y) \<in> set cs" by simp
  moreover from "4.prems" m have "reenters ?e y" by (simp add: same_marks_reenters)
  moreover from "4.prems" m have "has_class ?e y ''togglechildren''"
    by (simp add: same_marks_has_class)
  ultimately show ?case using "4.IH" by simp
next
  case (5 tb sh this cs d)
  then show ?case by simp
next
  case (6 tb k sh this cs d)
  define targets where "targets = toggle_targets d this"
  define d1 where "d1 = prop_checked (is_checked d this) targets d"
  have m1: "same_marks d d1" by (simp add: d1_def same_marks_prop_checked)
  have r1: "reenters d1 y" and c1: "has_class d1 y ''togglechildren''"
    using "6.prems" m1 by (simp_all add: same_marks_reenters same_marks_has_class)
  show ?case
  proof (cases "runA tb k sh (callsA tb d1 targets) d1")
    case None
    then show ?thesis by (simp add: Let_def targets_def d1_def)
  next
    case (Some d2)
    have m2: "same_marks d1 d2" using Some by (rule same_marks_runA)
    have "(HToggleChildren, y) \<in> set cs"
    proof (rule ccontr)
      assume "(HToggleChildren, y) \<notin> set cs"
      with "6.prems"(1) have "y = this" by simp
      with "6.prems"(2) obtain u where u: "u \<in> set targets" "this \<in> set (path d u)"
        by (auto simp: reenters_def targets_def)
      with "6.prems"(3) \<open>y = this\<close> m1
      have "(HToggleChildren, y) \<in> set (callsA tb d1 targets)"
        by (auto simp: in_callsA in_boundA same_marks_path same_marks_has_class)
      from "6.IH"(1) [OF targets_def [symmetric, THEN sym] d1_def [symmetric, THEN sym] this r1 c1]
      have "runA tb k sh (callsA tb d1 targets) d1 = None" .
      with Some show False by simp
    qed
    moreover from r1 m2 have "reenters d2 y" by (simp add: same_marks_reenters)
    moreover from c1 m2 have "has_class d2 y ''togglechildren''"
      by (simp add: same_marks_has_class)
    ultimately have "runA tb (Suc k) sh cs d2 = None"
      using "6.IH"(2) [OF targets_def [symmetric, THEN sym] d1_def [symmetric, THEN sym] Some] by simp
    with Some show ?thesis by (simp add: Let_def targets_def d1_def)
  qed
qed

lemma same_marks_plain_step: "same_marks d (plain_step sh c d)"
  by (cases "(sh, c, d)" rule: plain_step.cases)
    (simp_all add: same_marks_UpdateRow same_marks_toggleSection same_marks_update)

lemma same_marks_fold_plain: "same_marks d (fold (plain_step sh) cs d)"
proof (induction cs arbitrary: d)
  case Nil
  show ?case by simp
next
  case (Cons c cs)
  show ?case
    using same_marks_trans [OF same_marks_plain_step Cons.IH] by simp
qed

lemma same_marks_stepA: "same_marks d (stepA tb sh c d)"
proof (cases "(tb, sh, c, d)" rule: stepA.cases)
  case (1 tb' sh' y d')
  then show ?thesis
    by (simp add: Let_def same_marks_trans [OF same_marks_prop_checked same_marks_fold_plain])
qed (simp_all add: same_marks_UpdateRow same_marks_toggleSection same_marks_update)

lemma same_marks_fold_stepA: "same_marks d (fold (stepA tb sh) cs d)"
proof (induction cs arbitrary: d)
  case Nil
  show ?case by simp
next
  case (Cons c cs)
  show ?case
    using same_marks_trans [OF same_marks_stepA Cons.IH] by simp
qed

lemma same_marks_harmless: "same_marks d e \<Longrightarrow> harmless e cs = harmless d cs"
  by (simp add: harmless_def same_marks_has_class same_marks_toggle_targets same_marks_reenters)

lemma harmless_Cons: "harmless d (c # cs) \<Longrightarrow> harmless d cs"
  by (simp add: harmless_def)

lemma prop_checked_Nil [simp]: "prop_checked b [] d = d"
  by (simp add: prop_checked_def each_def)

lemma callsA_Nil [simp]: "callsA tb d [] = []"
  by (simp add: callsA_def)

lemma runA_Some_plain:
  "harmless d cs \<Longrightarrow> runA tb k sh cs d = Some e \<Longrightarrow> e = fold (plain_step sh) cs d"
proof (induction cs arbitrary: d)
  case Nil
  then show ?case by simp
next
  case (Cons c cs)
  obtain h y where c: "c = (h, y)" by (cases c)
  have nxt: "\<And>d'. same_marks d d' \<Longrightarrow> runA tb k sh cs d' = Some e \<Longrightarrow>
               e = fold (plain_step sh) cs d'"
    using Cons.IH harmless_Cons [OF Cons.prems(1)] by (simp add: same_marks_harmless)
  show ?case
  proof (cases h)
    case HUpdateRow
    with Cons.prems(2) c nxt [OF same_marks_UpdateRow] show ?thesis by simp
  next
    case HToggleSection
    with Cons.prems(2) c nxt [OF same_marks_toggleSection] show ?thesis by simp
  next
    case HUpdate
    with Cons.prems(2) c nxt [OF same_marks_update] show ?thesis by simp
  next
    case HToggleChildren
    from Cons.prems(2) c HToggleChildren obtain k' where k: "k = Suc k'"
      by (cases k) simp_all
    from Cons.prems(1) c HToggleChildren
    have cls: "has_class d y ''togglechildren''"
      and alt: "toggle_targets d y = [] \<or> reenters d y"
      by (simp_all add: harmless_def)
    have "\<not> reenters d y"
    proof
      assume "reenters d y"
      with cls have "runA tb k sh (c # cs) d = None"
        by (intro runA_reenters [of y]) (simp_all add: c HToggleChildren)
      with Cons.prems(2) show False by simp
    qed
    with alt have "toggle_targets d y = []" by simp
    with Cons.prems(2) c HToggleChildren k nxt [OF same_marks_refl]
    show ?thesis by simp
  qed
qed

lemma cascade_harmless: "harmless d (callsA tb d (toggle_targets d c))"
  unfolding harmless_def
proof (intro allI impI)
  fix y assume "(HToggleChildren, y) \<in> set (callsA tb d (toggle_targets d c))"
  then obtain t where t: "t \<in> set (toggle_targets d c)" "y \<in> set (path d t)"
    and cls: "has_class d y ''togglechildren''"
    by (auto simp: in_callsA in_boundA)
  from cascade_item [OF t] cls
  show "has_class d y ''togglechildren'' \<and> (toggle_targets d y = [] \<or> reenters d y)"
    by (simp add: reenters_def)
qed

lemma runA_Some_fold: "runA tb k sh cs d = Some e \<Longrightarrow> e = fold (stepA tb sh) cs d"
proof (induction tb k sh cs d arbitrary: e rule: runA.induct)
  case (6 tb k sh this cs d)
  define targets where "targets = toggle_targets d this"
  define d1 where "d1 = prop_checked (is_checked d this) targets d"
  from "6.prems" obtain d2 where
    r1: "runA tb k sh (callsA tb d1 targets) d1 = Some d2"
    and r2: "runA tb (Suc k) sh cs d2 = Some e"
    by (auto simp: Let_def d1_def targets_def split: option.splits)
  have m1: "same_marks d d1" by (simp add: d1_def same_marks_prop_checked)
  have "harmless d1 (callsA tb d1 (toggle_targets d1 this))" by (rule cascade_harmless)
  then have "harmless d1 (callsA tb d1 targets)"
    by (simp add: targets_def same_marks_toggle_targets [OF m1])
  from runA_Some_plain [OF this r1]
  have d2: "d2 = fold (plain_step sh) (callsA tb d1 targets) d1" .
  from "6.IH"(2) [OF targets_def [symmetric, THEN sym] d1_def [symmetric, THEN sym] r1 r2]
  have "e = fold (stepA tb sh) cs d2" .
  with d2 show ?case by (simp add: Let_def targets_def d1_def)
qed simp_all

lemma nth_toggleSection:
  "toggleSection d c ! n =
     (if n \<in> set (closest d Table c) \<and> n < length d
      then (d ! n)\<lparr>classes := (if is_checked d c then remove_token ''ignore'' (classes (d ! n))
                               else add_token ''ignore'' (classes (d ! n)))\<rparr>
      else d ! n)"
  by (simp add: toggleSection_def nth_addClass nth_removeClass)

lemma nth_update:
  "update sh d c ! n =
     (if n = c \<and> n < length d
      then (d ! n)\<lparr>style_height := Some (Px (sh (css_height (Em 1) [c] d) c))\<rparr>
      else d ! n)"
  by (simp add: update_def Let_def nth_css_height)

lemma checked_plain_step [simp]: "checked (plain_step sh c d ! n) = checked (d ! n)"
  by (cases "(sh, c, d)" rule: plain_step.cases)
    (simp_all add: nth_UpdateRow nth_toggleSection nth_update)

lemma checked_fold_plain [simp]: "checked (fold (plain_step sh) cs d ! n) = checked (d ! n)"
  by (induction cs arbitrary: d) simp_all

lemma is_checked_fold_plain [simp]: "is_checked (fold (plain_step sh) cs d) n = is_checked d n"
  by (simp add: is_checked_def same_marks_tag [OF same_marks_fold_plain])

lemma runA_no_toggle:
  "\<forall>y. (HToggleChildren, y) \<notin> set cs \<Longrightarrow> runA tb k sh cs d = Some (fold (plain_step sh) cs d)"
proof (induction cs arbitrary: d)
  case Nil
  show ?case by simp
next
  case (Cons c cs)
  obtain h y where c: "c = (h, y)" by (cases c)
  from Cons.prems c have "h \<noteq> HToggleChildren" by auto
  with Cons c show ?case by (cases h) simp_all
qed

lemma runA_inert:
  "\<forall>y. (HToggleChildren, y) \<in> set cs \<longrightarrow> toggle_targets d y = [] \<Longrightarrow>
   runA tb (Suc k) sh cs d = Some (fold (plain_step sh) cs d)"
proof (induction cs arbitrary: d)
  case Nil
  show ?case by simp
next
  case (Cons c cs)
  obtain h y where c: "c = (h, y)" by (cases c)
  have nxt: "\<And>d'. same_marks d d' \<Longrightarrow>
               runA tb (Suc k) sh cs d' = Some (fold (plain_step sh) cs d')"
    using Cons.prems by (intro Cons.IH) (simp add: same_marks_toggle_targets)
  show ?case
  proof (cases h)
    case HToggleChildren
    with Cons.prems c have "toggle_targets d y = []" by simp
    with HToggleChildren c nxt [OF same_marks_refl] show ?thesis by simp
  qed (simp_all add: c nxt same_marks_UpdateRow same_marks_toggleSection same_marks_update)
qed

lemma same_marks_settles: "same_marks d e \<Longrightarrow> settles e y = settles d y"
  by (simp add: settles_def same_marks_toggle_targets same_marks_path same_marks_has_class)

lemma runA_settles:
  "\<forall>y. (HToggleChildren, y) \<in> set cs \<longrightarrow> settles d y \<Longrightarrow>
   runA tb (Suc (Suc k)) sh cs d = Some (fold (stepA tb sh) cs d)"
proof (induction cs arbitrary: d)
  case Nil
  show ?case by simp
next
  case (Cons c cs)
  obtain h y where c: "c = (h, y)" by (cases c)
  have nxt: "\<And>d'. same_marks d d' \<Longrightarrow>
               runA tb (Suc (Suc k)) sh cs d' = Some (fold (stepA tb sh) cs d')"
    using Cons.prems by (intro Cons.IH) (simp add: same_marks_settles)
  show ?case
  proof (cases h)
    case HToggleChildren
    define targets where "targets = toggle_targets d y"
    define d1 where "d1 = prop_checked (is_checked d y) targets d"
    have m1: "same_marks d d1" by (simp add: d1_def same_marks_prop_checked)
    from Cons.prems c HToggleChildren have "settles d y" by simp
    then have "\<forall>z. (HToggleChildren, z) \<in> set (callsA tb d1 targets) \<longrightarrow> toggle_targets d1 z = []"
      using m1
      by (auto simp: settles_def targets_def in_callsA in_boundA same_marks_path
          same_marks_has_class same_marks_toggle_targets)
    from runA_inert [OF this]
    have r1: "runA tb (Suc k) sh (callsA tb d1 targets) d1
                = Some (fold (plain_step sh) (callsA tb d1 targets) d1)" .
    have "same_marks d (fold (plain_step sh) (callsA tb d1 targets) d1)"
      by (rule same_marks_trans [OF m1 same_marks_fold_plain])
    from nxt [OF this] r1 show ?thesis
      by (simp add: c HToggleChildren Let_def targets_def d1_def)
  qed (simp_all add: c nxt same_marks_UpdateRow same_marks_toggleSection same_marks_update)
qed

lemma toggleChildrenA_Some:
  assumes "toggleChildrenA k sh d this = Some e"
  shows "e = fold (plain_step sh) (callsA True d (toggle_targets d this))
               (prop_checked (is_checked d this) (toggle_targets d this) d)"
proof -
  from assms have "e = fold (stepA True sh) [(HToggleChildren, this)] d"
    unfolding toggleChildrenA_def by (rule runA_Some_fold)
  then show ?thesis
    by (simp add: Let_def same_marks_callsA [OF same_marks_prop_checked])
qed

lemma toggleChildrenA_returns:
  "toggleChildrenA (Suc (Suc k)) sh d this \<noteq> None \<longleftrightarrow> settles d this"
proof
  assume "settles d this"
  then have "runA True (Suc (Suc k)) sh [(HToggleChildren, this)] d
               = Some (fold (stepA True sh) [(HToggleChildren, this)] d)"
    by (intro runA_settles) simp
  then show "toggleChildrenA (Suc (Suc k)) sh d this \<noteq> None"
    by (simp add: toggleChildrenA_def)
next
  assume r: "toggleChildrenA (Suc (Suc k)) sh d this \<noteq> None"
  show "settles d this"
  proof (rule ccontr)
    assume "\<not> settles d this"
    then obtain t z where t: "t \<in> set (toggle_targets d this)" and z: "z \<in> set (path d t)"
      and cls: "has_class d z ''togglechildren''" and ne: "toggle_targets d z \<noteq> []"
      by (auto simp: settles_def)
    define d1 where "d1 = prop_checked (is_checked d this) (toggle_targets d this) d"
    have m1: "same_marks d d1" by (simp add: d1_def same_marks_prop_checked)
    from cascade_item [OF t z] ne have "reenters d z" by (simp add: reenters_def)
    with m1 have "reenters d1 z" by (simp add: same_marks_reenters)
    moreover from cls m1 have "has_class d1 z ''togglechildren''"
      by (simp add: same_marks_has_class)
    moreover from t z cls m1
    have "(HToggleChildren, z) \<in> set (callsA True d1 (toggle_targets d this))"
      by (auto simp: in_callsA in_boundA same_marks_path same_marks_has_class)
    ultimately have "runA True (Suc k) sh (callsA True d1 (toggle_targets d this)) d1 = None"
      by (intro runA_reenters [of z]) simp_all
    then have "toggleChildrenA (Suc (Suc k)) sh d this = None"
      by (simp add: toggleChildrenA_def Let_def d1_def)
    with r show False by simp
  qed
qed

section \<open>Runs that return\<close>

lemma writer_step:
  assumes "writer h tg mark"
  shows "plain_step sh (h, y) d ! n =
     (if n \<in> set (closest d tg y) \<and> n < length d
      then (d ! n)\<lparr>classes := (if is_checked d y then remove_token ''ignore'' (classes (d ! n))
                               else add_token ''ignore'' (classes (d ! n)))\<rparr>
      else d ! n)"
  using assms by (auto simp: writer_def nth_UpdateRow nth_toggleSection)

lemma writer_calls:
  assumes "writer h tg mark"
  shows "(h, y) \<in> set (callsA tb d xs) \<longleftrightarrow> (\<exists>x \<in> set xs. y \<in> set (path d x) \<and> has_class d y mark)"
  using assms by (auto simp: writer_def in_callsA in_boundA)

lemma has_class_step_writer:
  assumes "writer h tg mark" and "R \<in> set (closest d tg y)" and "R < length d"
  shows "has_class (plain_step sh (h, y) d) R ''ignore'' \<longleftrightarrow> \<not> is_checked d y"
  using assms(2,3)
  by (simp add: has_class_def writer_step [OF assms(1)] set_add_token set_remove_token)

lemma classes_step_other:
  assumes "writer h tg mark" and "tag (d ! R) = tg" and "c \<noteq> h \<or> R \<notin> set (closest d tg y)"
  shows "classes (plain_step sh (c, y) d ! R) = classes (d ! R)"
proof (cases c)
  case HUpdateRow
  with assms closest_in_path [of R d Tr y] show ?thesis
    by (auto simp: writer_def nth_UpdateRow)
next
  case HToggleSection
  with assms closest_in_path [of R d Table y] show ?thesis
    by (auto simp: writer_def nth_toggleSection)
next
  case HUpdate
  then show ?thesis by (simp add: nth_update)
next
  case HToggleChildren
  then show ?thesis by simp
qed

lemma is_checked_plain_step [simp]: "is_checked (plain_step sh c d) n = is_checked d n"
  by (simp add: is_checked_def same_marks_tag [OF same_marks_plain_step])

text \<open>A run of calls that trigger nothing: the class of an element follows the
  handlers that write it.\<close>

lemma fold_plain_class:
  assumes w: "writer h tg mark" and R: "tag (d ! R) = tg" "R < length d"
    and same: "\<forall>y. (h, y) \<in> set cs \<and> R \<in> set (closest d tg y) \<longrightarrow> is_checked d y = b"
    and some: "(has_class d R ''ignore'' \<longleftrightarrow> \<not> b) \<or>
               (\<exists>y. (h, y) \<in> set cs \<and> R \<in> set (closest d tg y))"
  shows "has_class (fold (plain_step sh) cs d) R ''ignore'' \<longleftrightarrow> \<not> b"
  using R same some
proof (induction cs arbitrary: d)
  case Nil
  then show ?case by simp
next
  case (Cons c cs)
  obtain g y where c: "c = (g, y)" by (cases c)
  let ?e = "plain_step sh c d"
  have m: "same_marks d ?e" by (rule same_marks_plain_step)
  have R': "tag (?e ! R) = tg" "R < length ?e"
    using Cons.prems(1,2) m by (simp_all add: same_marks_tag same_marks_length)
  have same': "\<forall>y. (h, y) \<in> set cs \<and> R \<in> set (closest ?e tg y) \<longrightarrow> is_checked ?e y = b"
    using Cons.prems(3) by (simp add: same_marks_closest [OF m])
  have some': "(has_class ?e R ''ignore'' \<longleftrightarrow> \<not> b) \<or>
               (\<exists>y. (h, y) \<in> set cs \<and> R \<in> set (closest ?e tg y))"
  proof (cases "g = h \<and> R \<in> set (closest d tg y)")
    case True
    with Cons.prems(3) c have "is_checked d y = b" by simp
    with True c has_class_step_writer [OF w _ Cons.prems(2), of y sh]
    show ?thesis by simp
  next
    case False
    then have "classes (?e ! R) = classes (d ! R)"
      unfolding c by (intro classes_step_other [OF w Cons.prems(1)]) auto
    then have hc: "has_class ?e R ''ignore'' = has_class d R ''ignore''"
      by (simp add: has_class_def)
    from Cons.prems(4) consider (holds) "has_class d R ''ignore'' \<longleftrightarrow> \<not> b"
      | (pending) z where "(h, z) \<in> set (c # cs)" "R \<in> set (closest d tg z)"
      by blast
    then show ?thesis
    proof cases
      case holds
      with hc show ?thesis by simp
    next
      case pending
      with False c have "(h, z) \<in> set cs" by auto
      moreover from pending(2) have "R \<in> set (closest ?e tg z)"
        by (simp add: same_marks_closest [OF m])
      ultimately show ?thesis by blast
    qed
  qed
  from Cons.IH [OF R' same' some'] show ?case by simp
qed

lemma path_drop: "i < length (path d n) \<Longrightarrow> drop i (path d n) = path d (path d n ! i)"
proof (induction i arbitrary: n)
  case 0
  show ?case by (simp add: path.simps [of d n])
next
  case (Suc i)
  show ?case
  proof (cases "parent_of d n")
    case None
    with Suc.prems show ?thesis by (simp add: path.simps [of d n])
  next
    case (Some p)
    then have p: "path d n = n # path d p" by (simp add: path.simps [of d n])
    with Suc.prems have "i < length (path d p)" by simp
    from Suc.IH [OF this] p show ?thesis by simp
  qed
qed

lemma closest_nearest:
  "closest d tg n = [T] \<longleftrightarrow>
     T \<in> set (path d n) \<and> tag (d ! T) = tg \<and>
     (\<forall>x \<in> set (path d n). tag (d ! x) = tg \<longrightarrow> x = T \<or> ancestor d T x)"
proof -
  let ?P = "\<lambda>x. tag (d ! x) = tg"
  let ?xs = "path d n"
  have later: "x \<in> set (path d (?xs ! i))"
    if i: "i < length ?xs" and first: "\<forall>j<i. \<not> ?P (?xs ! j)" and x: "x \<in> set ?xs" "?P x" for i x
  proof -
    from x(1) obtain j where j: "j < length ?xs" "?xs ! j = x" by (auto simp: in_set_conv_nth)
    with first x(2) have "i \<le> j" by (metis not_le_imp_less)
    with j have "drop i ?xs ! (j - i) = x" "j - i < length (drop i ?xs)"
      by simp_all
    then have "x \<in> set (drop i ?xs)"
      by (metis nth_mem)
    with path_drop [OF i] show ?thesis by simp
  qed
  show ?thesis
  proof
    assume "closest d tg n = [T]"
    then have "List.find ?P ?xs = Some T"
      by (simp add: closest_def split: option.splits)
    then obtain i where i: "i < length ?xs" "?P (?xs ! i)" "T = ?xs ! i" "\<forall>j<i. \<not> ?P (?xs ! j)"
      by (auto simp: find_Some_iff)
    have "x = T \<or> ancestor d T x" if "x \<in> set ?xs" "?P x" for x
      using later [OF i(1) i(4) that] i(3) path_ancestor [of x d T] by simp
    with i show "T \<in> set ?xs \<and> ?P T \<and> (\<forall>x \<in> set ?xs. ?P x \<longrightarrow> x = T \<or> ancestor d T x)"
      by auto
  next
    assume a: "T \<in> set ?xs \<and> ?P T \<and> (\<forall>x \<in> set ?xs. ?P x \<longrightarrow> x = T \<or> ancestor d T x)"
    then obtain r where r: "closest d tg n = [r]" "r \<in> set ?xs" "?P r"
      by (rule_tac closest_cases [of d tg n]) auto
    then have "List.find ?P ?xs = Some r"
      by (simp add: closest_def split: option.splits)
    then obtain i where i: "i < length ?xs" "r = ?xs ! i" "\<forall>j<i. \<not> ?P (?xs ! j)"
      by (auto simp: find_Some_iff)
    from a later [OF i(1) i(3)] i(2) have "T \<in> set (path d r)" by simp
    moreover from a r have "r = T \<or> ancestor d T r" by simp
    then have "r \<in> set (path d T)"
      by (auto simp: path_self ancestor_iff_path set_path [of d T])
    ultimately have "T = r" by (rule path_antisym)
    with r show "closest d tg n = [T]" by simp
  qed
qed

lemma in_toggle_targets_ancestor:
  "t \<in> set (toggle_targets d c) \<longleftrightarrow>
     t < length d \<and> has_class d t ''togglevisible'' \<and>
     (\<exists>T. closest d Table c = [T] \<and> ancestor d t T)"
proof (rule closest_cases [of d Table c])
  assume "closest d Table c = []"
  then show ?thesis by (simp add: in_toggle_targets)
next
  fix r assume "closest d Table c = [r]"
  then show ?thesis by (simp add: in_toggle_targets ancestor_iff_path)
qed

lemma nth_toggleChildrenB:
  "toggleChildrenB d c ! n =
     (if n \<in> set (toggle_targets d c) then (d ! n)\<lparr>checked := is_checked d c\<rparr> else d ! n)"
  by (auto simp: toggleChildrenB_def nth_prop_checked in_toggle_targets)

lemma checked_toggleChildrenA:
  assumes "toggleChildrenA k sh d c = Some e"
  shows "checked (e ! n) =
     (if n \<in> set (toggle_targets d c) then is_checked d c else checked (d ! n))"
  unfolding toggleChildrenA_Some [OF assms]
  by (auto simp: nth_prop_checked in_toggle_targets)

lemma is_checked_toggleChildrenB: "is_checked (toggleChildrenB d c) c = is_checked d c"
  by (auto simp: is_checked_def nth_toggleChildrenB)

lemma is_checked_toggleChildrenA:
  assumes "toggleChildrenA k sh d c = Some e"
  shows "is_checked e c = is_checked d c"
  using checked_toggleChildrenA [OF assms, of c]
    same_marks_tag [OF same_marks_runA [OF assms [unfolded toggleChildrenA_def]], of c]
  by (auto simp: is_checked_def)

lemma toggleChildrenA_no_nested:
  assumes "\<forall>t \<in> set (toggle_targets d c). \<forall>z \<in> set (path d t). \<not> has_class d z ''togglechildren''"
  shows "toggleChildrenA (Suc k) sh d c \<noteq> None"
proof -
  define d1 where "d1 = prop_checked (is_checked d c) (toggle_targets d c) d"
  have m1: "same_marks d d1" by (simp add: d1_def same_marks_prop_checked)
  from assms have "\<forall>y. (HToggleChildren, y) \<notin> set (callsA True d1 (toggle_targets d c))"
    by (auto simp: in_callsA in_boundA same_marks_path [OF m1] same_marks_has_class [OF m1])
  from runA_no_toggle [OF this] show ?thesis
    by (simp add: toggleChildrenA_def Let_def d1_def)
qed

lemma cascade_row:
  assumes K: "\<forall>t \<in> set (toggle_targets d this). tag (d ! t) = Input_Checkbox \<and>
               (\<forall>y \<in> set (tl (path d t)). \<not> has_class d y ''togglevisible'')"
    and e: "toggleChildrenA k sh d this = Some e"
    and t: "t \<in> set (toggle_targets d this)" and r: "closest d Tr t = [r]"
  shows "is_checked e t = is_checked d this"
    and "has_class e r ''ignore'' \<longleftrightarrow> \<not> is_checked e t"
proof -
  let ?b = "is_checked d this"
  let ?ts = "toggle_targets d this"
  define d1 where "d1 = prop_checked ?b ?ts d"
  have m1: "same_marks d d1" by (simp add: d1_def same_marks_prop_checked)
  have e': "e = fold (plain_step sh) (callsA True d ?ts) d1"
    using toggleChildrenA_Some [OF e] by (simp add: d1_def)
  have tgt: "is_checked d1 y = ?b" if "y \<in> set ?ts" for y
    using that K by (simp add: is_checked_def d1_def nth_prop_checked in_toggle_targets)
  from tgt [OF t] show c: "is_checked e t = ?b" by (simp add: e')
  from t have tl: "t < length d" and tv: "has_class d t ''togglevisible''"
    by (simp_all add: in_toggle_targets)
  have w: "writer HUpdateRow Tr ''togglevisible''" by (simp add: writer_def)
  from r have rr: "r \<in> set (closest d Tr t)" by simp
  then have "tag (d ! r) = Tr" by (simp add: closest_in_path)
  then have R1: "tag (d1 ! r) = Tr" by (simp add: same_marks_tag [OF m1])
  from closest_less [OF rr tl] have R2: "r < length d1" by (simp add: d1_def)
  have same: "\<forall>y. (HUpdateRow, y) \<in> set (callsA True d ?ts) \<and> r \<in> set (closest d1 Tr y)
                \<longrightarrow> is_checked d1 y = ?b"
  proof (intro allI impI)
    fix y assume "(HUpdateRow, y) \<in> set (callsA True d ?ts) \<and> r \<in> set (closest d1 Tr y)"
    then obtain x where x: "x \<in> set ?ts" "y \<in> set (path d x)" "has_class d y ''togglevisible''"
      by (auto simp: in_callsA in_boundA)
    with K have "y \<notin> set (tl (path d x))" by blast
    with x(2) have "y = x" by (simp add: set_path [of d x])
    with x(1) show "is_checked d1 y = ?b" by (simp add: tgt)
  qed
  have "(HUpdateRow, t) \<in> set (callsA True d ?ts) \<and> r \<in> set (closest d1 Tr t)"
    using t tv rr path_self [of t d]
    by (auto simp: in_callsA in_boundA same_marks_closest [OF m1] intro!: bexI [of _ t])
  then have some: "(has_class d1 r ''ignore'' \<longleftrightarrow> \<not> ?b) \<or>
      (\<exists>y. (HUpdateRow, y) \<in> set (callsA True d ?ts) \<and> r \<in> set (closest d1 Tr y))"
    by blast
  from fold_plain_class [OF w R1 R2 same some, of sh]
  have "has_class e r ''ignore'' \<longleftrightarrow> \<not> ?b" by (simp add: e')
  with c show "has_class e r ''ignore'' \<longleftrightarrow> \<not> is_checked e t" by simp
qed

lemma two_rows_scenario:
  "\<exists>e. toggleChildrenA (Suc k) sh two_rows 2 = Some e \<and>
       \<not> is_checked e 4 \<and> \<not> is_checked e 6 \<and>
       has_class e 3 ''ignore'' \<and> has_class e 5 ''ignore''"
proof -
  have "\<forall>t \<in> set (toggle_targets two_rows 2). \<forall>z \<in> set (path two_rows t).
          \<not> has_class two_rows z ''togglechildren''"
    by code_simp
  from toggleChildrenA_no_nested [OF this]
  obtain e where e: "toggleChildrenA (Suc k) sh two_rows 2 = Some e" by blast
  have K: "\<forall>t \<in> set (toggle_targets two_rows 2). tag (two_rows ! t) = Input_Checkbox \<and>
             (\<forall>y \<in> set (tl (path two_rows t)). \<not> has_class two_rows y ''togglevisible'')"
    by code_simp
  have t: "4 \<in> set (toggle_targets two_rows 2)" "6 \<in> set (toggle_targets two_rows 2)"
    by code_simp+
  have r: "closest two_rows Tr 4 = [3]" "closest two_rows Tr 6 = [5]" by code_simp+
  have b: "\<not> is_checked two_rows 2" by code_simp
  from cascade_row [OF K e t(1) r(1)] cascade_row [OF K e t(2) r(2)] b e
  show ?thesis by simp
qed

section \<open>The ready callback and single events\<close>

lemma in_select_class: "y \<in> set (select_class d c) \<longleftrightarrow> y < length d \<and> has_class d y c"
  by (auto simp: select_class_def)

lemma writer_mark: "writer h tg mark \<Longrightarrow> mark \<noteq> ''ignore''"
  by (auto simp: writer_def)

lemma same_marks_sole:
  assumes "same_marks d e"
  shows "sole h tg mark e c R = sole h tg mark d c R"
proof (cases "writer h tg mark")
  case True
  note mk = writer_mark [OF True]
  show ?thesis
    by (simp add: sole_def same_marks_length [OF assms] same_marks_has_class [OF assms mk]
        same_marks_closest [OF assms] same_marks_select_class [OF assms mk])
next
  case False
  then show ?thesis by (simp add: sole_def)
qed

lemma same_marks_proper:
  "same_marks d e \<Longrightarrow> mark \<noteq> ''ignore'' \<Longrightarrow> proper h mark e cs = proper h mark d cs"
  by (simp add: proper_def same_marks_select_class)

lemma closest_single: "R \<in> set (closest d tg y) \<longleftrightarrow> closest d tg y = [R]"
  by (rule closest_cases [of d tg y]) auto

lemma proper_calls:
  assumes "writer h tg mark" and "\<forall>x \<in> set xs. x < length d"
  shows "proper h mark d (callsA tb d xs)"
  unfolding proper_def
proof (intro allI impI)
  fix y assume "(h, y) \<in> set (callsA tb d xs)"
  then obtain x where x: "x \<in> set xs" "y \<in> set (path d x)" "has_class d y mark"
    by (auto simp: writer_calls [OF assms(1)])
  from path_le [OF x(2)] assms(2) x(1) have "y < length d" by fastforce
  with x(3) show "y \<in> set (select_class d mark)" by (simp add: in_select_class)
qed

lemma stepA_keeps:
  assumes s: "sole h tg mark d c R"
    and p: "g = h \<longrightarrow> y \<in> set (select_class d mark)"
    and i: "(has_class d R ''ignore'' \<longleftrightarrow> \<not> is_checked d c) \<or> (g, y) = (h, c)"
  shows "has_class (stepA tb sh (g, y) d) R ''ignore'' \<longleftrightarrow> \<not> is_checked (stepA tb sh (g, y) d) c"
proof -
  from s have w: "writer h tg mark" and cl: "c < length d" and cm: "has_class d c mark"
    and cR: "closest d tg c = [R]"
    and only: "\<And>z. z \<in> set (select_class d mark) \<Longrightarrow> closest d tg z = [R] \<Longrightarrow> z = c"
    by (simp_all add: sole_def)
  note mk = writer_mark [OF w]
  from cR have Rin: "R \<in> set (closest d tg c)" by simp
  then have Rt: "tag (d ! R) = tg" by (simp add: closest_in_path)
  from closest_less [OF Rin cl] have Rl: "R < length d" .
  show ?thesis
  proof (cases "g = HToggleChildren")
    case True
    let ?ts = "toggle_targets d y"
    define d1 where "d1 = prop_checked (is_checked d y) ?ts d"
    have m1: "same_marks d d1" by (simp add: d1_def same_marks_prop_checked)
    let ?cs = "callsA tb d1 ?ts"
    have e: "stepA tb sh (g, y) d = fold (plain_step sh) ?cs d1"
      by (simp add: True Let_def d1_def)
    have R1: "tag (d1 ! R) = tg" "R < length d1"
      using Rt Rl by (simp_all add: same_marks_tag [OF m1] same_marks_length [OF m1])
    have "\<forall>x \<in> set ?ts. x < length d1"
      by (simp add: in_toggle_targets same_marks_length [OF m1])
    from proper_calls [OF w this]
    have pr: "proper h mark d1 ?cs" .
    have same: "\<forall>z. (h, z) \<in> set ?cs \<and> R \<in> set (closest d1 tg z)
                  \<longrightarrow> is_checked d1 z = is_checked d1 c"
    proof (intro allI impI)
      fix z assume z: "(h, z) \<in> set ?cs \<and> R \<in> set (closest d1 tg z)"
      with pr have "z \<in> set (select_class d mark)"
        by (simp add: proper_def same_marks_select_class [OF m1 mk])
      moreover from z have "closest d tg z = [R]"
        by (simp add: closest_single same_marks_closest [OF m1])
      ultimately have "z = c" by (rule only)
      then show "is_checked d1 z = is_checked d1 c" by simp
    qed
    have some: "(has_class d1 R ''ignore'' \<longleftrightarrow> \<not> is_checked d1 c) \<or>
                (\<exists>z. (h, z) \<in> set ?cs \<and> R \<in> set (closest d1 tg z))"
    proof (cases "c \<in> set ?ts")
      case True
      with cm path_self [of c d1] have "(h, c) \<in> set ?cs"
        by (auto simp: writer_calls [OF w] same_marks_has_class [OF m1 mk])
      with Rin show ?thesis by (auto simp: same_marks_closest [OF m1])
    next
      case False
      then have "is_checked d1 c = is_checked d c"
        by (simp add: is_checked_def d1_def nth_prop_checked)
      moreover have "has_class d1 R ''ignore'' = has_class d R ''ignore''"
        by (simp add: has_class_def d1_def nth_prop_checked)
      moreover from i w True have "has_class d R ''ignore'' \<longleftrightarrow> \<not> is_checked d c"
        by (auto simp: writer_def)
      ultimately show ?thesis by simp
    qed
    from fold_plain_class [OF w R1 same some, of sh] show ?thesis
      by (simp add: e)
  next
    case False
    then have e: "stepA tb sh (g, y) d = plain_step sh (g, y) d"
      by (cases g) simp_all
    show ?thesis
    proof (cases "g = h \<and> R \<in> set (closest d tg y)")
      case True
      with p have "y \<in> set (select_class d mark)" "closest d tg y = [R]"
        by (simp_all add: closest_single)
      then have "y = c" by (rule only)
      with True e have "stepA tb sh (g, y) d = plain_step sh (h, c) d"
        by simp
      with has_class_step_writer [OF w Rin Rl, of sh] show ?thesis
        by simp
    next
      case F: False
      then have "classes (plain_step sh (g, y) d ! R) = classes (d ! R)"
        by (intro classes_step_other [OF w Rt]) auto
      then have "has_class (plain_step sh (g, y) d) R ''ignore'' = has_class d R ''ignore''"
        by (simp add: has_class_def)
      moreover from i F Rin have "has_class d R ''ignore'' \<longleftrightarrow> \<not> is_checked d c"
        by auto
      ultimately show ?thesis by (simp add: e)
    qed
  qed
qed

lemma fold_stepA_keeps:
  assumes "sole h tg mark d c R" and "proper h mark d cs"
    and "(has_class d R ''ignore'' \<longleftrightarrow> \<not> is_checked d c) \<or> (h, c) \<in> set cs"
  shows "has_class (fold (stepA tb sh) cs d) R ''ignore''
           \<longleftrightarrow> \<not> is_checked (fold (stepA tb sh) cs d) c"
  using assms
proof (induction cs arbitrary: d)
  case Nil
  then show ?case by simp
next
  case (Cons a cs)
  obtain g y where a: "a = (g, y)" by (cases a)
  let ?e = "stepA tb sh a d"
  have m: "same_marks d ?e" by (rule same_marks_stepA)
  from Cons.prems(1) have "writer h tg mark" by (simp add: sole_def)
  then have mk: "mark \<noteq> ''ignore''" by (rule writer_mark)
  have s': "sole h tg mark ?e c R" using Cons.prems(1) by (simp add: same_marks_sole [OF m])
  have p': "proper h mark ?e cs"
    using Cons.prems(2) by (simp add: same_marks_proper [OF m mk]) (simp add: proper_def)
  have "(has_class ?e R ''ignore'' \<longleftrightarrow> \<not> is_checked ?e c) \<or> (h, c) \<in> set cs"
  proof (cases "(h, c) \<in> set cs")
    case True
    then show ?thesis by simp
  next
    case False
    with Cons.prems(3) a
    have "(has_class d R ''ignore'' \<longleftrightarrow> \<not> is_checked d c) \<or> (g, y) = (h, c)" by auto
    moreover from Cons.prems(2) a have "g = h \<longrightarrow> y \<in> set (select_class d mark)"
      by (simp add: proper_def)
    ultimately show ?thesis
      using stepA_keeps [OF Cons.prems(1), of g y tb sh] by (simp add: a)
  qed
  from Cons.IH [OF s' p' this] show ?case by simp
qed

lemma path_Cons: "path d n = n # tl (path d n)"
  by (cases "parent_of d n") (simp_all add: path.simps [of d n])

lemma concat_map_Nil: "\<forall>y \<in> set ys. f y = [] \<Longrightarrow> concat (map f ys) = []"
  by (induction ys) simp_all

lemma callsA_alone: "alone h d x \<Longrightarrow> callsA True d [x] = [(h, x)]"
proof -
  assume a: "alone h d x"
  have "callsA True d [x] =
      map (\<lambda>g. (g, x)) (boundA True d x) @
      concat (map (\<lambda>y. map (\<lambda>g. (g, y)) (boundA True d y)) (tl (path d x)))"
    unfolding callsA_def by (subst path_Cons) simp
  moreover from a have "concat (map (\<lambda>y. map (\<lambda>g. (g, y)) (boundA True d y)) (tl (path d x))) = []"
    by (intro concat_map_Nil) (simp add: alone_def)
  ultimately show ?thesis using a by (simp add: alone_def)
qed

lemma boundB_boundA: "boundB d y = filter (\<lambda>g. g \<noteq> HToggleSection) (boundA True d y)"
  by (simp add: boundB_def boundA_def)

lemma changeB_alone:
  assumes "alone h d x" and "h \<noteq> HToggleSection"
  shows "changeB sh d x = runB sh [(h, x)] d"
proof -
  have p: "path d x = x # tl (path d x)" by (rule path_Cons)
  from assms have r: "concat (map (\<lambda>y. map (\<lambda>g. (g, y)) (boundB d y)) (tl (path d x))) = []"
    by (intro concat_map_Nil) (simp add: alone_def boundB_boundA)
  from assms have b: "boundB d x = [h]" by (simp add: alone_def boundB_boundA)
  have "concat (map (\<lambda>y. map (\<lambda>g. (g, y)) (boundB d y)) (path d x)) = [(h, x)]"
    by (subst p) (simp add: r b)
  then show ?thesis by (simp add: changeB_def)
qed

lemma changeA_alone: "alone h d x \<Longrightarrow> changeA k sh d x = runA True k sh [(h, x)] d"
  by (simp add: changeA_def callsA_alone)

lemma fold_UpdateRow:
  "fold (\<lambda>x e. UpdateRow e x) xs d = fold (stepA tb sh) (map (Pair HUpdateRow) xs) d"
  by (induction xs arbitrary: d) simp_all

lemma fold_update:
  "fold (\<lambda>x e. update sh e x) xs d = fold (stepA tb sh) (map (Pair HUpdate) xs) d"
  by (induction xs arbitrary: d) simp_all

lemma init_rows_fold: "init_rows d = fold (stepA tb sh) (row_calls d) d"
  by (simp add: init_rows_def row_calls_def fold_UpdateRow)

lemma same_marks_init_rows: "same_marks d (init_rows d)"
  unfolding init_rows_fold [of d False flat] by (rule same_marks_fold_stepA)

lemma init_textareas_fold: "init_textareas sh d = fold (stepA tb sh) (textarea_calls d) d"
  by (simp add: init_textareas_def textarea_calls_def fold_update)

lemma same_marks_init_textareas: "same_marks d (init_textareas sh d)"
  unfolding init_textareas_fold [of sh d False] by (rule same_marks_fold_stepA)

lemma same_marks_section_calls: "same_marks d e \<Longrightarrow> section_calls e = section_calls d"
  by (simp add: section_calls_def same_marks_callsA same_marks_select_class)

lemma same_marks_textarea_calls: "same_marks d e \<Longrightarrow> textarea_calls e = textarea_calls d"
  by (simp add: textarea_calls_def same_marks_select_tag)

lemma init_sections_Some:
  "init_sections k sh d = Some e \<Longrightarrow> e = fold (stepA False sh) (section_calls d) d"
  unfolding init_sections_def section_calls_def by (rule runA_Some_fold)

lemma initB_fold: "initB sh d = fold (stepA tb sh) (row_calls d @ textarea_calls d) d"
  by (simp add: initB_def init_textareas_fold [of sh _ tb] init_rows_fold [of d tb sh]
      same_marks_textarea_calls [OF same_marks_fold_stepA])

lemma initA_Some:
  assumes "initA k sh d = Some e"
  shows "e = fold (stepA False sh) (row_calls d @ section_calls d @ textarea_calls d) d"
proof -
  from assms obtain d2 where d2: "init_sections k sh (init_rows d) = Some d2"
    and e: "e = init_textareas sh d2"
    by (auto simp: initA_def split: option.splits)
  have m1: "same_marks d (init_rows d)" by (rule same_marks_init_rows)
  from init_sections_Some [OF d2]
  have d2': "d2 = fold (stepA False sh) (section_calls d) (init_rows d)"
    by (simp add: same_marks_section_calls [OF m1])
  then have "same_marks (init_rows d) d2" by (simp add: same_marks_fold_stepA)
  with m1 have "same_marks d d2" by (rule same_marks_trans)
  then have "textarea_calls d2 = textarea_calls d" by (rule same_marks_textarea_calls)
  with e d2' show ?thesis
    by (simp add: init_textareas_fold [of sh _ False] init_rows_fold [of d False sh])
qed

lemma unsettled_cascade:
  assumes "\<not> settles d y" and m1: "same_marks d d1"
  shows "runA tb k sh (callsA tb d1 (toggle_targets d y)) d1 = None"
proof -
  from assms(1) obtain t z where t: "t \<in> set (toggle_targets d y)" and z: "z \<in> set (path d t)"
    and cls: "has_class d z ''togglechildren''" and ne: "toggle_targets d z \<noteq> []"
    by (auto simp: settles_def)
  from cascade_item [OF t z] ne have "reenters d z" by (simp add: reenters_def)
  with m1 have "reenters d1 z" by (simp add: same_marks_reenters)
  moreover from cls m1 have "has_class d1 z ''togglechildren''"
    by (simp add: same_marks_has_class)
  moreover from t z cls m1
  have "(HToggleChildren, z) \<in> set (callsA tb d1 (toggle_targets d y))"
    by (auto simp: in_callsA in_boundA same_marks_path same_marks_has_class)
  ultimately show ?thesis by (intro runA_reenters [of z]) simp_all
qed

lemma runA_unsettled:
  "(HToggleChildren, y) \<in> set cs \<Longrightarrow> \<not> settles d y \<Longrightarrow> runA tb k sh cs d = None"
proof (induction cs arbitrary: d)
  case Nil
  then show ?case by simp
next
  case (Cons a cs)
  obtain g z where a: "a = (g, z)" by (cases a)
  have nxt: "runA tb k sh cs d' = None" if "same_marks d d'" "(g, z) \<noteq> (HToggleChildren, y)" for d'
    using Cons.IH [of d'] Cons.prems that a by (auto simp: same_marks_settles)
  show ?case
  proof (cases g)
    case HUpdateRow
    with a nxt [OF same_marks_UpdateRow] show ?thesis by simp
  next
    case HToggleSection
    with a nxt [OF same_marks_toggleSection] show ?thesis by simp
  next
    case HUpdate
    with a nxt [OF same_marks_update] show ?thesis by simp
  next
    case HToggleChildren
    show ?thesis
    proof (cases k)
      case 0
      with a HToggleChildren show ?thesis by simp
    next
      case (Suc k')
      define d1 where "d1 = prop_checked (is_checked d z) (toggle_targets d z) d"
      have m1: "same_marks d d1" by (simp add: d1_def same_marks_prop_checked)
      show ?thesis
      proof (cases "runA tb k' sh (callsA tb d1 (toggle_targets d z)) d1")
        case None
        with a HToggleChildren Suc show ?thesis by (simp add: Let_def d1_def)
      next
        case (Some d2)
        with unsettled_cascade [OF _ m1, of z tb k' sh] have "settles d z" by auto
        with Cons.prems(2) have ne: "(g, z) \<noteq> (HToggleChildren, y)" by auto
        from Some have "same_marks d1 d2" by (rule same_marks_runA)
        with m1 have "same_marks d d2" by (rule same_marks_trans)
        from nxt [OF this ne] Some a HToggleChildren Suc show ?thesis
          by (simp add: Let_def d1_def)
      qed
    qed
  qed
qed

lemma runA_returns:
  "runA tb (Suc (Suc k)) sh cs d \<noteq> None \<longleftrightarrow> (\<forall>y. (HToggleChildren, y) \<in> set cs \<longrightarrow> settles d y)"
proof
  assume "\<forall>y. (HToggleChildren, y) \<in> set cs \<longrightarrow> settles d y"
  from runA_settles [OF this] show "runA tb (Suc (Suc k)) sh cs d \<noteq> None" by simp
next
  assume r: "runA tb (Suc (Suc k)) sh cs d \<noteq> None"
  show "\<forall>y. (HToggleChildren, y) \<in> set cs \<longrightarrow> settles d y"
  proof (intro allI impI, rule ccontr)
    fix y assume "(HToggleChildren, y) \<in> set cs" "\<not> settles d y"
    then have "runA tb (Suc (Suc k)) sh cs d = None" by (rule runA_unsettled)
    with r show False by simp
  qed
qed

lemma init_sections_returns:
  "init_sections (Suc (Suc k)) sh d \<noteq> None \<longleftrightarrow> sections_settle d"
  unfolding init_sections_def runA_returns sections_settle_def
  by (auto simp: in_callsA in_boundA)

lemma same_marks_sections_settle: "same_marks d e \<Longrightarrow> sections_settle e = sections_settle d"
  by (simp add: sections_settle_def same_marks_select_class same_marks_path
      same_marks_has_class same_marks_settles)

lemma initA_returns: "initA (Suc (Suc k)) sh d \<noteq> None \<longleftrightarrow> sections_settle d"
proof -
  have "initA (Suc (Suc k)) sh d \<noteq> None
          \<longleftrightarrow> init_sections (Suc (Suc k)) sh (init_rows d) \<noteq> None"
    by (simp add: initA_def split: option.splits)
  then show ?thesis
    by (simp only: init_sections_returns same_marks_sections_settle [OF same_marks_init_rows])
qed

lemma ready_proper:
  assumes "writer h tg mark"
  shows "proper h mark d (row_calls d @ section_calls d @ textarea_calls d)"
proof -
  have "proper h mark d (section_calls d)"
    unfolding section_calls_def
    by (rule proper_calls [OF assms]) (simp add: in_select_class)
  moreover have "(h, y) \<in> set (row_calls d) \<Longrightarrow> y \<in> set (select_class d mark)" for y
    using assms by (auto simp: row_calls_def writer_def)
  moreover have "(h, y) \<notin> set (textarea_calls d)" for y
    using assms by (auto simp: textarea_calls_def writer_def)
  ultimately show ?thesis by (auto simp: proper_def)
qed

lemma ready_pending:
  assumes "writer h tg mark" and "c \<in> set (select_class d mark)"
  shows "(h, c) \<in> set (row_calls d @ section_calls d @ textarea_calls d)"
proof (cases "h = HUpdateRow")
  case True
  with assms show ?thesis by (auto simp: row_calls_def writer_def)
next
  case False
  with assms have "h = HToggleSection" "mark = ''togglesection''" by (auto simp: writer_def)
  with assms(2) path_self [of c d] have "(h, c) \<in> set (section_calls d)"
    by (auto simp: section_calls_def in_callsA in_boundA in_select_class)
  then show ?thesis by simp
qed

lemma sole_select: "sole h tg mark d c R \<Longrightarrow> c \<in> set (select_class d mark)"
  by (simp add: sole_def in_select_class)

lemma sole_initA:
  assumes s: "sole h tg mark d c R" and e: "initA k sh d = Some e"
  shows "has_class e R ''ignore'' \<longleftrightarrow> \<not> is_checked e c"
proof -
  from s have w: "writer h tg mark" by (simp add: sole_def)
  from ready_pending [OF w sole_select [OF s]]
  have "(has_class d R ''ignore'' \<longleftrightarrow> \<not> is_checked d c) \<or>
        (h, c) \<in> set (row_calls d @ section_calls d @ textarea_calls d)" ..
  from fold_stepA_keeps [OF s ready_proper [OF w] this, of False sh]
  show ?thesis by (simp only: initA_Some [OF e])
qed

lemma sole_init_sections:
  assumes s: "sole h tg mark d c R" and h: "h = HToggleSection"
    and e: "init_sections k sh d = Some e"
  shows "has_class e R ''ignore'' \<longleftrightarrow> \<not> is_checked e c"
proof -
  from s have w: "writer h tg mark" by (simp add: sole_def)
  with h have mk: "mark = ''togglesection''" by (simp add: writer_def)
  have p: "proper h mark d (section_calls d)"
    unfolding section_calls_def
    by (rule proper_calls [OF w]) (simp add: in_select_class)
  from sole_select [OF s] path_self [of c d] h mk
  have "(h, c) \<in> set (section_calls d)"
    by (auto simp: section_calls_def in_callsA in_boundA in_select_class)
  then have "(has_class d R ''ignore'' \<longleftrightarrow> \<not> is_checked d c) \<or> (h, c) \<in> set (section_calls d)" ..
  from fold_stepA_keeps [OF s p this, of False sh]
  show ?thesis by (simp only: init_sections_Some [OF e])
qed

lemma sole_changeA:
  assumes s: "sole h tg mark d c R" and e: "changeA k sh d c = Some e"
  shows "has_class e R ''ignore'' \<longleftrightarrow> \<not> is_checked e c"
proof -
  from s have w: "writer h tg mark" and cl: "c < length d" and cm: "has_class d c mark"
    by (simp_all add: sole_def)
  have p: "proper h mark d (callsA True d [c])"
    by (rule proper_calls [OF w]) (simp add: cl)
  from cm path_self [of c d] have "(h, c) \<in> set (callsA True d [c])"
    by (simp add: writer_calls [OF w])
  then have "(has_class d R ''ignore'' \<longleftrightarrow> \<not> is_checked d c) \<or>
             (h, c) \<in> set (callsA True d [c])" ..
  from fold_stepA_keeps [OF s p this, of True sh]
  show ?thesis
    by (simp only: runA_Some_fold [OF e [unfolded changeA_def]])
qed

lemma sole_initB:
  assumes s: "sole HUpdateRow tg mark d c R"
  shows "has_class (init_rows d) R ''ignore'' \<longleftrightarrow> \<not> is_checked (init_rows d) c"
    and "has_class (initB sh d) R ''ignore'' \<longleftrightarrow> \<not> is_checked (initB sh d) c"
proof -
  from s have w: "writer HUpdateRow tg mark" by (simp add: sole_def)
  then have mk: "mark = ''togglevisible''" by (simp add: writer_def)
  have p: "proper HUpdateRow mark d (row_calls d)"
    "proper HUpdateRow mark d (row_calls d @ textarea_calls d)"
    by (auto simp: proper_def row_calls_def textarea_calls_def mk)
  from sole_select [OF s] have "(HUpdateRow, c) \<in> set (row_calls d)"
    by (simp add: row_calls_def mk)
  then have i: "(has_class d R ''ignore'' \<longleftrightarrow> \<not> is_checked d c) \<or>
                (HUpdateRow, c) \<in> set (row_calls d)"
    "(has_class d R ''ignore'' \<longleftrightarrow> \<not> is_checked d c) \<or>
     (HUpdateRow, c) \<in> set (row_calls d @ textarea_calls d)"
    by simp_all
  from fold_stepA_keeps [OF s p(1) i(1), of False flat]
  show "has_class (init_rows d) R ''ignore'' \<longleftrightarrow> \<not> is_checked (init_rows d) c"
    by (simp only: init_rows_fold [of d False flat])
  from fold_stepA_keeps [OF s p(2) i(2), of False sh]
  show "has_class (initB sh d) R ''ignore'' \<longleftrightarrow> \<not> is_checked (initB sh d) c"
    by (simp only: initB_fold [of sh d False])
qed

lemma has_class_toggleSection_table:
  "T \<in> set (closest d Table c) \<Longrightarrow> T < length d \<Longrightarrow>
   has_class (toggleSection d c) T ''ignore'' \<longleftrightarrow> \<not> is_checked d c"
  by (simp add: has_class_def nth_toggleSection set_add_token set_remove_token)

lemma is_checked_toggleSection [simp]: "is_checked (toggleSection d c) n = is_checked d n"
  by (simp add: is_checked_def nth_toggleSection)

lemma length_update [simp]: "length (update sh d n) = length d"
  by (simp add: update_def Let_def)

lemma update_other: "m \<noteq> n \<Longrightarrow> update sh d n ! m = d ! m"
  by (simp add: nth_update)

lemma fold_update_other:
  "n \<notin> set ys \<Longrightarrow> fold (\<lambda>y e. update sh e y) ys d ! n = d ! n"
  by (induction ys arbitrary: d) (auto simp: nth_update)

lemma length_fold_update [simp]: "length (fold (\<lambda>y e. update sh e y) ys d) = length d"
  by (induction ys arbitrary: d) simp_all

lemma fold_key_other:
  "n \<notin> set ys \<Longrightarrow>
   fold (\<lambda>y e. if tag (e ! y) = Textarea then update sh e y else e) ys d ! n = d ! n"
  by (induction ys arbitrary: d) (auto simp: nth_update)

lemma key_event_height:
  assumes "n < length d" and "tag (d ! n) = Textarea"
  shows "style_height (key_event sh d n ! n) = Some (Px (sh (css_height (Em 1) [n] d) n))"
proof -
  have "n \<notin> set (tl (path d n))" using tl_path_less [of n d n] by auto
  then have "key_event sh d n ! n = update sh d n ! n"
    unfolding key_event_def
    by (subst path_Cons) (simp add: assms(2) fold_key_other)
  with assms(1) show ?thesis by (simp add: nth_update)
qed

lemma distinct_select_tag: "distinct (select_tag d t)"
  by (simp add: select_tag_def)

lemma resize_height:
  assumes "select_tag d Textarea = xs @ n # ys"
  shows "style_height (resize sh d ! n)
           = Some (Px (sh (css_height (Em 1) [n] (fold (\<lambda>y e. update sh e y) xs d)) n))"
proof -
  from assms have "n \<in> set (select_tag d Textarea)" by simp
  then have l: "n < length d" by (simp add: select_tag_def)
  from distinct_select_tag [of d Textarea] assms have "n \<notin> set ys" by simp
  then have "resize sh d ! n = update sh (fold (\<lambda>y e. update sh e y) xs d) n ! n"
    by (simp add: resize_def assms fold_update_other)
  with l show ?thesis by (simp add: nth_update)
qed

lemma same_marks_alone: "same_marks d e \<Longrightarrow> alone h e x = alone h d x"
  by (simp add: alone_def same_marks_boundA same_marks_path)

lemma alone_UpdateRow:
  assumes "alone HUpdateRow d x"
  shows "changeB sh d x = UpdateRow d x" and "changeA k sh d x = Some (UpdateRow d x)"
    and "changeB sh (changeB sh d x) x = changeB sh d x"
    and "changeA k sh (UpdateRow d x) x = Some (UpdateRow d x)"
proof -
  from assms show 1: "changeB sh d x = UpdateRow d x" by (simp add: changeB_alone)
  from assms show "changeA k sh d x = Some (UpdateRow d x)" by (simp add: changeA_alone)
  from assms have a: "alone HUpdateRow (UpdateRow d x) x"
    by (simp add: same_marks_alone [OF same_marks_UpdateRow])
  then show "changeB sh (changeB sh d x) x = changeB sh d x"
    by (simp add: 1 changeB_alone UpdateRow_idem)
  from a show "changeA k sh (UpdateRow d x) x = Some (UpdateRow d x)"
    by (simp add: changeA_alone UpdateRow_idem)
qed

lemma alone_toggleChildren:
  assumes "alone HToggleChildren d x"
  shows "changeB sh d x = toggleChildrenB d x" and "changeA k sh d x = toggleChildrenA k sh d x"
  using assms by (simp_all add: changeB_alone changeA_alone toggleChildrenA_def)

section \<open>Documents whose bound elements are leaves\<close>

text \<open>
  In a document where only leaves bind handlers, a change event at an element that
  binds one handler runs that handler alone, and the ancestors of the targets of a
  children toggle carry no toggle class. The example documents are of this kind.
\<close>

lemma tl_path_parent:
  "y \<in> set (tl (path d x)) \<Longrightarrow> \<exists>m \<in> set (path d x). parent_of d m = Some y"
proof (induction x rule: less_induct)
  case (less x)
  from less.prems obtain p where p: "parent_of d x = Some p" and y: "y \<in> set (path d p)"
    by (rule in_tl_path_cases)
  have px: "set (path d p) \<subseteq> set (path d x)"
    using p by (auto simp: path.simps [of d x])
  show ?case
  proof (cases "y = p")
    case True
    with p path_self [of x d] show ?thesis by blast
  next
    case False
    with y have "y \<in> set (tl (path d p))" by (simp add: set_path [of d p])
    from less.IH [OF parent_of_less [OF p] this] px show ?thesis by blast
  qed
qed

lemma bound_leavesD:
  assumes "bound_leaves d" and "m < length d" and "parent_of d m = Some y"
  shows "boundA True d y = []"
proof -
  from assms(2) have "m \<in> set [0..<length d]" by simp
  with assms(1) have "case parent_of d m of None \<Rightarrow> True | Some p \<Rightarrow> boundA True d p = []"
    unfolding bound_leaves_def by (rule bspec)
  with assms(3) show ?thesis by simp
qed

lemma bound_leaves_alone:
  assumes "bound_leaves d" and "x < length d" and "boundA True d x = [h]"
  shows "alone h d x"
  unfolding alone_def
proof (intro conjI ballI)
  show "boundA True d x = [h]" by fact
  fix y assume "y \<in> set (tl (path d x))"
  from tl_path_parent [OF this] obtain m where m: "m \<in> set (path d x)" "parent_of d m = Some y"
    by blast
  from path_le [OF m(1)] assms(2) have "m < length d" by simp
  with assms(1) m(2) show "boundA True d y = []"
    by (blast intro: bound_leavesD)
qed

lemma bound_leaves_cascade:
  assumes "bound_leaves d"
    and "\<forall>t \<in> set (toggle_targets d c). tag (d ! t) = Input_Checkbox"
  shows "\<forall>t \<in> set (toggle_targets d c). tag (d ! t) = Input_Checkbox \<and>
           (\<forall>y \<in> set (tl (path d t)). \<not> has_class d y ''togglevisible'')"
proof (intro ballI conjI)
  fix t assume t: "t \<in> set (toggle_targets d c)"
  with assms(2) show "tag (d ! t) = Input_Checkbox" by simp
  fix y assume "y \<in> set (tl (path d t))"
  from tl_path_parent [OF this] obtain m where m: "m \<in> set (path d t)" "parent_of d m = Some y"
    by blast
  from t have "t < length d" by (simp add: in_toggle_targets)
  with path_le [OF m(1)] have "m < length d" by simp
  with assms(1) m(2) have "boundA True d y = []" by (blast intro: bound_leavesD)
  then show "\<not> has_class d y ''togglevisible''"
    by (auto simp: boundA_def split: if_splits)
qed

lemma examples_bound_leaves:
  "bound_leaves two_rows" "bound_leaves nested" "bound_leaves fresh" "bound_leaves shared_row"
  "bound_leaves shared_table" "bound_leaves loose"
  by code_simp+

section \<open>A children toggle that never returns\<close>

text \<open>
  The handler of the first copy triggers the change event of its targets. A checkbox
  that is its own target is triggered by its own handler, which then runs again: no
  depth of the call stack is enough.
\<close>

lemma toggleChildrenA_unsettled: "\<not> settles d this \<Longrightarrow> toggleChildrenA k sh d this = None"
  unfolding toggleChildrenA_def by (rule runA_unsettled [of this]) simp_all

lemma both_toggles_never_returns:
  "toggle_targets both_toggles 2 = [2]"
  "toggleChildrenA k sh both_toggles 2 = None"
  "changeA k sh both_toggles 2 = None"
proof -
  show "toggle_targets both_toggles 2 = [2]" by code_simp
  have n: "\<not> settles both_toggles 2" by code_simp
  then show "toggleChildrenA k sh both_toggles 2 = None" by (rule toggleChildrenA_unsettled)
  have "(HToggleChildren, 2) \<in> set (callsA True both_toggles [2])" by code_simp
  from runA_unsettled [OF this n] show "changeA k sh both_toggles 2 = None"
    by (simp add: changeA_def)
qed

section \<open>Row visibility sync\<close>

text \<open>
  C8. \<^verbatim>\<open>UpdateRow\<close> cannot fail: it is a total function from documents to documents,
  with no error among its results. For a row checkbox none of whose ancestors is a
  \<^verbatim>\<open>tr\<close>, the handler leaves the whole document as it is; where the handler is all a
  change event at the checkbox runs, so does the event, in both copies.
\<close>

theorem UpdateRow_without_row:
  assumes "tag (d ! this) = Input_Checkbox"
    and "\<forall>x \<in> set (tl (path d this)). tag (d ! x) \<noteq> Tr"
  shows "UpdateRow d this = d \<and>
         (alone HUpdateRow d this \<longrightarrow>
            changeB sh d this = d \<and> (\<forall>k. changeA k sh d this = Some d))"
proof -
  have "set (path d this) = insert this (set (tl (path d this)))"
    by (subst path.simps) (simp add: tl_path)
  with assms have "\<forall>x \<in> set (path d this). tag (d ! x) \<noteq> Tr"
    by simp
  then have "closest d Tr this = []"
    by (simp add: closest_Nil_iff)
  then have "UpdateRow d this = d" by (rule UpdateRow_no_row)
  then show ?thesis by (simp add: alone_UpdateRow)
qed

theorem UpdateRow_without_row_witness:
  "tag (loose ! 1) = Input_Checkbox \<and> tl (path loose 1) = [0] \<and>
   tag (loose ! 0) = Other_Element \<and> UpdateRow loose 1 = loose \<and>
   changeB flat loose 1 = loose \<and> changeA 0 flat loose 1 = Some loose"
proof -
  have p: "tl (path loose 1) = [0]" by code_simp
  have t: "tag (loose ! 1) = Input_Checkbox" "tag (loose ! 0) = Other_Element"
    by code_simp+
  have a: "alone HUpdateRow loose 1" by code_simp
  from p t have "\<forall>x \<in> set (tl (path loose 1)). tag (loose ! x) \<noteq> Tr" by simp
  from UpdateRow_without_row [OF t(1) this, of flat] a
  have "UpdateRow loose 1 = loose" "changeB flat loose 1 = loose"
    "changeA 0 flat loose 1 = Some loose"
    by blast+
  with p t show ?thesis by simp
qed

text \<open>
  C7. Row visibility sync is idempotent: running \<^verbatim>\<open>UpdateRow\<close> a second time on the
  same checkbox, whose checked state the handler does not touch, gives the document
  the first run gave, so the class list of the row is the same. Where \<^verbatim>\<open>UpdateRow\<close>
  is all a change event at the checkbox runs, firing the event twice gives what firing
  it once gives, in both copies.
\<close>

theorem UpdateRow_idempotent:
  "UpdateRow (UpdateRow d this) this = UpdateRow d this \<and>
   is_checked (UpdateRow d this) this = is_checked d this \<and>
   (alone HUpdateRow d this \<longrightarrow>
      changeB sh (changeB sh d this) this = changeB sh d this \<and>
      (\<forall>k. changeA k sh d this = Some (UpdateRow d this) \<and>
           changeA k sh (UpdateRow d this) this = Some (UpdateRow d this)))"
proof (intro conjI impI allI)
  show "UpdateRow (UpdateRow d this) this = UpdateRow d this" by (rule UpdateRow_idem)
  show "is_checked (UpdateRow d this) this = is_checked d this" by simp
next
  assume "alone HUpdateRow d this"
  then show "changeB sh (changeB sh d this) this = changeB sh d this"
    by (rule alone_UpdateRow)
next
  fix k assume a: "alone HUpdateRow d this"
  from a show "changeA k sh d this = Some (UpdateRow d this)" by (rule alone_UpdateRow)
  from a show "changeA k sh (UpdateRow d this) this = Some (UpdateRow d this)"
    by (rule alone_UpdateRow)
qed

theorem UpdateRow_idempotent_witness:
  "UpdateRow (UpdateRow two_rows 4) 4 = UpdateRow two_rows 4 \<and>
   changeB flat (changeB flat two_rows 4) 4 = changeB flat two_rows 4 \<and>
   classes (UpdateRow two_rows 4 ! 3) = [''odd''] \<and>
   classes (UpdateRow (prop_checked False [4] two_rows) 4 ! 3) = [''odd'', ''ignore''] \<and>
   classes (UpdateRow (UpdateRow (prop_checked False [4] two_rows) 4) 4 ! 3)
     = [''odd'', ''ignore'']"
proof -
  have a: "classes (UpdateRow two_rows 4 ! 3) = [''odd'']"
    by code_simp
  have b: "classes (UpdateRow (prop_checked False [4] two_rows) 4 ! 3) = [''odd'', ''ignore'']"
    by code_simp
  have al: "alone HUpdateRow two_rows 4" by code_simp
  from UpdateRow_idempotent [of two_rows 4 flat] al
  have e: "changeB flat (changeB flat two_rows 4) 4 = changeB flat two_rows 4"
    by blast
  from UpdateRow_idempotent [of two_rows 4 flat]
    UpdateRow_idempotent [of "prop_checked False [4] two_rows" 4 flat]
  have i: "UpdateRow (UpdateRow two_rows 4) 4 = UpdateRow two_rows 4"
    "UpdateRow (UpdateRow (prop_checked False [4] two_rows) 4) 4
       = UpdateRow (prop_checked False [4] two_rows) 4"
    by blast+
  from i a b e show ?thesis by simp
qed

text \<open>
  C9. \<^verbatim>\<open>UpdateRow\<close> writes nothing but the \<^verbatim>\<open>ignore\<close> class of the closest row: the
  document keeps its length; every element keeps its tag, its parent, its checked
  property, its inline height and its classes other than \<^verbatim>\<open>ignore\<close>, in their order;
  and every element that is not the closest row of the checkbox is left as it was.
\<close>

theorem UpdateRow_frame:
  "length (UpdateRow d this) = length d \<and>
   (\<forall>n. tag (UpdateRow d this ! n) = tag (d ! n) \<and>
        parent (UpdateRow d this ! n) = parent (d ! n) \<and>
        checked (UpdateRow d this ! n) = checked (d ! n) \<and>
        style_height (UpdateRow d this ! n) = style_height (d ! n) \<and>
        remove_token ''ignore'' (classes (UpdateRow d this ! n))
          = remove_token ''ignore'' (classes (d ! n))) \<and>
   (\<forall>n. n \<notin> set (closest d Tr this) \<longrightarrow> UpdateRow d this ! n = d ! n)"
  by (simp add: nth_UpdateRow add_token_def remove_token_def)

theorem UpdateRow_frame_witness:
  "closest (prop_checked False [4] two_rows) Tr 4 = [3] \<and>
   UpdateRow (prop_checked False [4] two_rows) 4 ! 5 = prop_checked False [4] two_rows ! 5 \<and>
   UpdateRow (prop_checked False [4] two_rows) 4 ! 4 = prop_checked False [4] two_rows ! 4 \<and>
   classes (UpdateRow (prop_checked False [4] two_rows) 4 ! 3) = [''odd'', ''ignore''] \<and>
   remove_token ''ignore'' (classes (UpdateRow (prop_checked False [4] two_rows) 4 ! 3))
     = classes (prop_checked False [4] two_rows ! 3)"
proof -
  let ?d = "prop_checked False [4] two_rows"
  have c: "closest ?d Tr 4 = [3]"
    by code_simp
  have b: "classes (UpdateRow ?d 4 ! 3) = [''odd'', ''ignore'']"
    by code_simp
  have o: "remove_token ''ignore'' (classes (?d ! 3)) = classes (?d ! 3)"
    by code_simp
  from UpdateRow_frame [of ?d 4]
  have f: "remove_token ''ignore'' (classes (UpdateRow ?d 4 ! 3))
             = remove_token ''ignore'' (classes (?d ! 3))"
    and g: "\<And>n. n \<notin> set (closest ?d Tr 4) \<Longrightarrow> UpdateRow ?d 4 ! n = ?d ! n"
    by blast+
  have "UpdateRow ?d 4 ! 5 = ?d ! 5" "UpdateRow ?d 4 ! 4 = ?d ! 4"
    by (rule g, simp add: c)+
  with c b f o show ?thesis by simp
qed

section \<open>Children propagation toggle\<close>

text \<open>
  C2. Let \<open>t\<close> carry the class \<^verbatim>\<open>togglevisible\<close> and lie within the closest enclosing
  table \<open>T\<close> of the toggle. In the second copy the handler leaves the checked property
  of \<open>t\<close> equal to the checked state of the toggle, which it does not change. In the
  first copy the same holds whenever the handler returns; and given a call stack of
  depth two or more it returns exactly when no children toggle with targets of its own
  lies on the event path of one of its targets. Where the handler is all a change event
  at the toggle runs, the event is the handler, in both copies.
\<close>

theorem children_toggle_checked:
  assumes "closest d Table this = [T]"
    and "t < length d" and "has_class d t ''togglevisible''" and "ancestor d t T"
  shows "checked (toggleChildrenB d this ! t) = is_checked d this \<and>
         is_checked (toggleChildrenB d this) this = is_checked d this \<and>
         (\<forall>k e. toggleChildrenA k sh d this = Some e \<longrightarrow>
            checked (e ! t) = is_checked d this \<and> is_checked e this = is_checked d this) \<and>
         (\<forall>k. toggleChildrenA (Suc (Suc k)) sh d this \<noteq> None \<longleftrightarrow> settles d this) \<and>
         (alone HToggleChildren d this \<longrightarrow>
            changeB sh d this = toggleChildrenB d this \<and>
            (\<forall>k. changeA k sh d this = toggleChildrenA k sh d this))"
proof (intro conjI allI impI)
  from assms have t: "t \<in> set (toggle_targets d this)"
    by (auto simp: in_toggle_targets_ancestor)
  then show "checked (toggleChildrenB d this ! t) = is_checked d this"
    by (simp add: nth_toggleChildrenB)
  show "is_checked (toggleChildrenB d this) this = is_checked d this"
    by (rule is_checked_toggleChildrenB)
  fix k e assume e: "toggleChildrenA k sh d this = Some e"
  from checked_toggleChildrenA [OF e, of t] t
  show "checked (e ! t) = is_checked d this" by simp
  from e show "is_checked e this = is_checked d this"
    by (rule is_checked_toggleChildrenA)
next
  fix k show "toggleChildrenA (Suc (Suc k)) sh d this \<noteq> None \<longleftrightarrow> settles d this"
    by (rule toggleChildrenA_returns)
next
  assume "alone HToggleChildren d this"
  then show "changeB sh d this = toggleChildrenB d this" by (rule alone_toggleChildren)
next
  fix k assume "alone HToggleChildren d this"
  then show "changeA k sh d this = toggleChildrenA k sh d this" by (rule alone_toggleChildren)
qed

theorem children_toggle_checked_witness:
  "closest two_rows Table 2 = [0] \<and> has_class two_rows 4 ''togglevisible'' \<and>
   checked (two_rows ! 4) \<and> \<not> is_checked two_rows 2 \<and>
   \<not> checked (toggleChildrenB two_rows 2 ! 4) \<and>
   changeB flat two_rows 2 = toggleChildrenB two_rows 2 \<and>
   changeA 2 flat two_rows 2 = toggleChildrenA 2 flat two_rows 2 \<and>
   toggleChildrenA 2 flat two_rows 2 \<noteq> None \<and>
   \<not> checked (the (toggleChildrenA 2 flat two_rows 2) ! 4)"
proof -
  have T: "closest two_rows Table 2 = [0]" by code_simp
  have l: "4 < length two_rows" by code_simp
  have c: "has_class two_rows 4 ''togglevisible''" by code_simp
  have "0 \<in> set (tl (path two_rows 4))" by code_simp
  then have a: "ancestor two_rows 4 0" by (simp add: ancestor_iff_path)
  have s: "settles two_rows 2" by code_simp
  have b: "\<not> is_checked two_rows 2" "checked (two_rows ! 4)" by code_simp+
  note inst = children_toggle_checked [OF T l c a, of flat]
  from inst have i1: "checked (toggleChildrenB two_rows 2 ! 4) = is_checked two_rows 2"
    and i3: "\<And>k e. toggleChildrenA k flat two_rows 2 = Some e \<Longrightarrow>
               checked (e ! 4) = is_checked two_rows 2"
    and i4: "toggleChildrenA (Suc (Suc 0)) flat two_rows 2 \<noteq> None \<longleftrightarrow> settles two_rows 2"
    by blast+
  from i4 s have r: "toggleChildrenA 2 flat two_rows 2 \<noteq> None"
    by (simp only: numeral_2_eq_2)
  then obtain e where e: "toggleChildrenA 2 flat two_rows 2 = Some e" by blast
  from i3 [OF e] b have "\<not> checked (e ! 4)" by simp
  with e have "\<not> checked (the (toggleChildrenA 2 flat two_rows 2) ! 4)" by simp
  moreover from i1 b have "\<not> checked (toggleChildrenB two_rows 2 ! 4)" by simp
  moreover have "alone HToggleChildren two_rows 2" by code_simp
  with inst have "changeB flat two_rows 2 = toggleChildrenB two_rows 2"
    "changeA 2 flat two_rows 2 = toggleChildrenA 2 flat two_rows 2"
    by blast+
  ultimately show ?thesis using T c b r by blast
qed

text \<open>
  C10. The set both copies write is the set of the elements with class
  \<^verbatim>\<open>togglevisible\<close> that have the closest table \<open>T\<close> of the toggle among their ancestors,
  at any depth, where \<open>T\<close> is the nearest table among the toggle and its ancestors:
  every table on that path is \<open>T\<close> or an ancestor of \<open>T\<close>. The second copy writes the
  checked property of these elements and nothing else; in the first copy, when the
  handler returns, the checked property of every other element is what it was. The
  handler returns, and is the whole change event, under the conditions of C2.
\<close>

theorem children_toggle_targets:
  "(closest d Table this = [T] \<longleftrightarrow>
      T \<in> set (path d this) \<and> tag (d ! T) = Table \<and>
      (\<forall>x \<in> set (path d this). tag (d ! x) = Table \<longrightarrow> x = T \<or> ancestor d T x)) \<and>
   (a \<in> set (path d this) \<longleftrightarrow> a = this \<or> ancestor d this a) \<and>
   (t \<in> set (toggle_targets d this) \<longleftrightarrow>
      t < length d \<and> has_class d t ''togglevisible'' \<and>
      (\<exists>T. closest d Table this = [T] \<and> ancestor d t T)) \<and>
   toggleChildrenB d this ! n =
     (if n \<in> set (toggle_targets d this) then (d ! n)\<lparr>checked := is_checked d this\<rparr>
      else d ! n) \<and>
   (\<forall>k e. toggleChildrenA k sh d this = Some e \<longrightarrow>
      checked (e ! n) =
        (if n \<in> set (toggle_targets d this) then is_checked d this else checked (d ! n))) \<and>
   (\<forall>k. toggleChildrenA (Suc (Suc k)) sh d this \<noteq> None \<longleftrightarrow> settles d this) \<and>
   (alone HToggleChildren d this \<longrightarrow>
      changeB sh d this = toggleChildrenB d this \<and>
      (\<forall>k. changeA k sh d this = toggleChildrenA k sh d this))"
proof -
  have 1: "closest d Table this = [T] \<longleftrightarrow>
      T \<in> set (path d this) \<and> tag (d ! T) = Table \<and>
      (\<forall>x \<in> set (path d this). tag (d ! x) = Table \<longrightarrow> x = T \<or> ancestor d T x)"
    by (rule closest_nearest)
  have 2: "a \<in> set (path d this) \<longleftrightarrow> a = this \<or> ancestor d this a"
    by (auto simp: ancestor_iff_path set_path [of d this])
  have 3: "t \<in> set (toggle_targets d this) \<longleftrightarrow>
      t < length d \<and> has_class d t ''togglevisible'' \<and>
      (\<exists>T. closest d Table this = [T] \<and> ancestor d t T)"
    by (rule in_toggle_targets_ancestor)
  have 4: "toggleChildrenB d this ! n =
     (if n \<in> set (toggle_targets d this) then (d ! n)\<lparr>checked := is_checked d this\<rparr>
      else d ! n)"
    by (rule nth_toggleChildrenB)
  have 5: "\<forall>k e. toggleChildrenA k sh d this = Some e \<longrightarrow>
      checked (e ! n) =
        (if n \<in> set (toggle_targets d this) then is_checked d this else checked (d ! n))"
    by (intro allI impI checked_toggleChildrenA)
  have 6: "\<forall>k. toggleChildrenA (Suc (Suc k)) sh d this \<noteq> None \<longleftrightarrow> settles d this"
    by (intro allI toggleChildrenA_returns)
  have 7: "alone HToggleChildren d this \<longrightarrow>
      changeB sh d this = toggleChildrenB d this \<and>
      (\<forall>k. changeA k sh d this = toggleChildrenA k sh d this)"
    by (simp add: alone_toggleChildren)
  show ?thesis
    by (intro conjI) (rule 1 2 3 4 5 6 7)+
qed

theorem children_toggle_targets_witness:
  "toggle_targets nested 2 = [9, 11] \<and> toggle_targets nested 7 = [9] \<and>
   closest nested Table 2 = [0] \<and> closest nested Table 9 = [5] \<and>
   has_class nested 14 ''togglevisible'' \<and>
   checked (toggleChildrenB nested 2 ! 9) \<and> checked (toggleChildrenB nested 2 ! 11) \<and>
   \<not> checked (toggleChildrenB nested 2 ! 14) \<and>
   changeB flat nested 2 = toggleChildrenB nested 2 \<and>
   changeA 2 flat nested 2 = toggleChildrenA 2 flat nested 2 \<and>
   toggleChildrenA 2 flat nested 2 \<noteq> None \<and>
   checked (the (toggleChildrenA 2 flat nested 2) ! 9) \<and>
   checked (the (toggleChildrenA 2 flat nested 2) ! 11) \<and>
   \<not> checked (the (toggleChildrenA 2 flat nested 2) ! 14)"
proof -
  have tg: "toggle_targets nested 2 = [9, 11]" "toggle_targets nested 7 = [9]" by code_simp+
  have cl: "closest nested Table 2 = [0]" "closest nested Table 9 = [5]" by code_simp+
  have hc: "has_class nested 14 ''togglevisible''" by code_simp
  have b: "is_checked nested 2" "\<not> checked (nested ! 14)" by code_simp+
  have s: "settles nested 2" by code_simp
  have B: "checked (toggleChildrenB nested 2 ! n) =
             (if n \<in> set (toggle_targets nested 2) then True else checked (nested ! n))"
    and A: "\<And>e. toggleChildrenA 2 flat nested 2 = Some e \<Longrightarrow>
             checked (e ! n) =
               (if n \<in> set (toggle_targets nested 2) then True else checked (nested ! n))"
    and R: "toggleChildrenA (Suc (Suc 0)) flat nested 2 \<noteq> None \<longleftrightarrow> settles nested 2" for n
    using children_toggle_targets [of nested 2 0 0 0 n flat] b(1) by simp_all
  from R s have r: "toggleChildrenA 2 flat nested 2 \<noteq> None"
    by (simp only: numeral_2_eq_2)
  then obtain e where e: "toggleChildrenA 2 flat nested 2 = Some e" by blast
  have "checked (toggleChildrenB nested 2 ! 9)" "checked (toggleChildrenB nested 2 ! 11)"
    "\<not> checked (toggleChildrenB nested 2 ! 14)"
    "checked (e ! 9)" "checked (e ! 11)" "\<not> checked (e ! 14)"
    using b(2) by (simp_all add: B A [OF e] tg)
  moreover have "alone HToggleChildren nested 2" by code_simp
  with children_toggle_targets [of nested 2 0 0 0 0 flat]
  have "changeB flat nested 2 = toggleChildrenB nested 2"
    "changeA 2 flat nested 2 = toggleChildrenA 2 flat nested 2"
    by blast+
  ultimately show ?thesis using tg cl hc r e by simp
qed

text \<open>
  C3. In the first copy, let every target of the toggle be a checkbox none of whose
  ancestors carries the class \<^verbatim>\<open>togglevisible\<close>. When the handler returns, every target
  has the checked state of the toggle, and the closest row of every target has the
  class \<^verbatim>\<open>ignore\<close> exactly when the target is unchecked. The handler returns, and is
  the whole change event, under the conditions of C2. In the document \<open>two_rows\<close>,
  where the user has just unchecked the toggle over two checked rows, it returns with
  both row checkboxes unchecked and both rows carrying \<^verbatim>\<open>ignore\<close>.
\<close>

theorem children_toggle_cascade:
  assumes "\<forall>t \<in> set (toggle_targets d this). tag (d ! t) = Input_Checkbox \<and>
             (\<forall>y \<in> set (tl (path d t)). \<not> has_class d y ''togglevisible'')"
  shows "(\<forall>k e t r. toggleChildrenA k sh d this = Some e \<and>
            t \<in> set (toggle_targets d this) \<and> closest d Tr t = [r] \<longrightarrow>
            is_checked e t = is_checked d this \<and>
            (has_class e r ''ignore'' \<longleftrightarrow> \<not> is_checked e t)) \<and>
         (\<forall>k. toggleChildrenA (Suc (Suc k)) sh d this \<noteq> None \<longleftrightarrow> settles d this) \<and>
         (alone HToggleChildren d this \<longrightarrow>
            (\<forall>k. changeA k sh d this = toggleChildrenA k sh d this)) \<and>
         (\<forall>k l. \<exists>e. toggleChildrenA (Suc k) l two_rows 2 = Some e \<and>
            \<not> is_checked e 4 \<and> \<not> is_checked e 6 \<and>
            has_class e 3 ''ignore'' \<and> has_class e 5 ''ignore'')"
proof (intro conjI allI impI)
  fix k e t r
  assume a: "toggleChildrenA k sh d this = Some e \<and>
             t \<in> set (toggle_targets d this) \<and> closest d Tr t = [r]"
  then have e: "toggleChildrenA k sh d this = Some e"
    and t: "t \<in> set (toggle_targets d this)" and r: "closest d Tr t = [r]"
    by simp_all
  from cascade_row(1) [OF assms e t r] show "is_checked e t = is_checked d this" .
  from cascade_row(2) [OF assms e t r] show "has_class e r ''ignore'' \<longleftrightarrow> \<not> is_checked e t" .
next
  fix k show "toggleChildrenA (Suc (Suc k)) sh d this \<noteq> None \<longleftrightarrow> settles d this"
    by (rule toggleChildrenA_returns)
next
  fix k assume "alone HToggleChildren d this"
  then show "changeA k sh d this = toggleChildrenA k sh d this" by (rule alone_toggleChildren)
next
  fix k l
  show "\<exists>e. toggleChildrenA (Suc k) l two_rows 2 = Some e \<and>
            \<not> is_checked e 4 \<and> \<not> is_checked e 6 \<and>
            has_class e 3 ''ignore'' \<and> has_class e 5 ''ignore''"
    by (rule two_rows_scenario)
qed

theorem children_toggle_cascade_witness:
  "toggle_targets nested 2 = [9, 11] \<and> closest nested Tr 9 = [8] \<and>
   closest nested Tr 11 = [10] \<and> is_checked nested 2 \<and>
   has_class nested 8 ''ignore'' \<and> has_class nested 10 ''ignore'' \<and>
   changeA 2 flat nested 2 = toggleChildrenA 2 flat nested 2 \<and>
   toggleChildrenA 2 flat nested 2 \<noteq> None \<and>
   is_checked (the (toggleChildrenA 2 flat nested 2)) 9 \<and>
   is_checked (the (toggleChildrenA 2 flat nested 2)) 11 \<and>
   \<not> has_class (the (toggleChildrenA 2 flat nested 2)) 8 ''ignore'' \<and>
   \<not> has_class (the (toggleChildrenA 2 flat nested 2)) 10 ''ignore''"
proof -
  have K: "\<forall>t \<in> set (toggle_targets nested 2). tag (nested ! t) = Input_Checkbox \<and>
             (\<forall>y \<in> set (tl (path nested t)). \<not> has_class nested y ''togglevisible'')"
    by code_simp
  have tg: "toggle_targets nested 2 = [9, 11]" by code_simp
  have r: "closest nested Tr 9 = [8]" "closest nested Tr 11 = [10]" by code_simp+
  have b: "is_checked nested 2" "has_class nested 8 ''ignore''" "has_class nested 10 ''ignore''"
    by code_simp+
  have s: "settles nested 2" by code_simp
  from children_toggle_cascade [OF K, of flat]
  have P: "\<And>k e t r. toggleChildrenA k flat nested 2 = Some e \<Longrightarrow>
            t \<in> set (toggle_targets nested 2) \<Longrightarrow> closest nested Tr t = [r] \<Longrightarrow>
            is_checked e t = is_checked nested 2 \<and>
            (has_class e r ''ignore'' \<longleftrightarrow> \<not> is_checked e t)"
    and R: "toggleChildrenA (Suc (Suc 0)) flat nested 2 \<noteq> None \<longleftrightarrow> settles nested 2"
    and E: "alone HToggleChildren nested 2 \<Longrightarrow>
            changeA 2 flat nested 2 = toggleChildrenA 2 flat nested 2"
    by blast+
  have "alone HToggleChildren nested 2" by code_simp
  note ev = E [OF this]
  from R s have ne: "toggleChildrenA 2 flat nested 2 \<noteq> None"
    by (simp only: numeral_2_eq_2)
  then obtain e where e: "toggleChildrenA 2 flat nested 2 = Some e" by blast
  from P [OF e _ r(1)] P [OF e _ r(2)] b(1)
  have "is_checked e 9" "is_checked e 11" "\<not> has_class e 8 ''ignore''"
    "\<not> has_class e 10 ''ignore''"
    by (simp_all add: tg)
  with tg r b ne e ev show ?thesis by simp
qed

section \<open>Row and section toggles after the ready callback\<close>

text \<open>
  C1. As stated the claim fails: in \<open>shared_row\<close> two row toggles share a row, and after
  the ready callback of either copy the row follows the second, checked one, so it
  lacks \<^verbatim>\<open>ignore\<close> although the first is unchecked.
\<close>

theorem row_sync_shared_row:
  "tag (shared_row ! 3) = Input_Checkbox \<and> has_class shared_row 3 ''togglevisible'' \<and>
   closest shared_row Tr 3 = [1] \<and>
   \<not> is_checked (initB flat shared_row) 3 \<and>
   \<not> has_class (initB flat shared_row) 1 ''ignore'' \<and>
   initA 0 flat shared_row = Some (initB flat shared_row)"
  by code_simp

text \<open>
  C1, amended. Let \<open>c\<close> carry the class \<^verbatim>\<open>togglevisible\<close> and let \<open>r\<close> be its closest
  row. Right after \<^verbatim>\<open>UpdateRow\<close> has run for \<open>c\<close>, \<open>r\<close> has the class \<^verbatim>\<open>ignore\<close> exactly
  when \<open>c\<close> is unchecked; where \<^verbatim>\<open>UpdateRow\<close> is all a change event at \<open>c\<close> runs, this
  is the state after the event in both copies. If \<open>c\<close> is the only element with the
  class whose closest row is \<open>r\<close>, the same holds after the loop over the row toggles,
  after the ready callback of the second copy, and whenever the ready callback or a
  change event at \<open>c\<close> returns in the first copy. The ready callback of the first copy
  returns, given a call stack of depth two or more, exactly when every children toggle
  reached from a section toggle returns.
\<close>

theorem row_sync:
  assumes "c < length d" and "has_class d c ''togglevisible''" and "closest d Tr c = [r]"
  shows
    "(has_class (UpdateRow d c) r ''ignore'' \<longleftrightarrow> \<not> is_checked (UpdateRow d c) c) \<and>
     (alone HUpdateRow d c \<longrightarrow>
        changeB sh d c = UpdateRow d c \<and> (\<forall>k. changeA k sh d c = Some (UpdateRow d c))) \<and>
     ((\<forall>x \<in> set (select_class d ''togglevisible''). closest d Tr x = [r] \<longrightarrow> x = c) \<longrightarrow>
        (has_class (init_rows d) r ''ignore'' \<longleftrightarrow> \<not> is_checked (init_rows d) c) \<and>
        (has_class (initB sh d) r ''ignore'' \<longleftrightarrow> \<not> is_checked (initB sh d) c) \<and>
        (\<forall>k e. initA k sh d = Some e \<longrightarrow> (has_class e r ''ignore'' \<longleftrightarrow> \<not> is_checked e c)) \<and>
        (\<forall>k e. changeA k sh d c = Some e \<longrightarrow> (has_class e r ''ignore'' \<longleftrightarrow> \<not> is_checked e c))) \<and>
     (\<forall>k. initA (Suc (Suc k)) sh d \<noteq> None \<longleftrightarrow> sections_settle d)"
proof (intro conjI impI allI)
  from assms(3) have rin: "r \<in> set (closest d Tr c)" by simp
  from closest_less [OF rin assms(1)] have rl: "r < length d" .
  from has_class_UpdateRow_row [OF rin rl]
  show "has_class (UpdateRow d c) r ''ignore'' \<longleftrightarrow> \<not> is_checked (UpdateRow d c) c"
    by simp
next
  assume "alone HUpdateRow d c"
  then show "changeB sh d c = UpdateRow d c" by (simp add: changeB_alone)
next
  fix k assume "alone HUpdateRow d c"
  then show "changeA k sh d c = Some (UpdateRow d c)" by (simp add: changeA_alone)
next
  assume "\<forall>x \<in> set (select_class d ''togglevisible''). closest d Tr x = [r] \<longrightarrow> x = c"
  with assms have s: "sole HUpdateRow Tr ''togglevisible'' d c r"
    by (simp add: sole_def writer_def)
  from sole_initB(1) [OF s]
  show "has_class (init_rows d) r ''ignore'' \<longleftrightarrow> \<not> is_checked (init_rows d) c" .
  from sole_initB(2) [OF s]
  show "has_class (initB sh d) r ''ignore'' \<longleftrightarrow> \<not> is_checked (initB sh d) c" .
  fix k e
  { assume "initA k sh d = Some e"
    from sole_initA [OF s this]
    show "has_class e r ''ignore'' \<longleftrightarrow> \<not> is_checked e c" . }
  { assume "changeA k sh d c = Some e"
    from sole_changeA [OF s this]
    show "has_class e r ''ignore'' \<longleftrightarrow> \<not> is_checked e c" . }
next
  fix k show "initA (Suc (Suc k)) sh d \<noteq> None \<longleftrightarrow> sections_settle d"
    by (rule initA_returns)
qed

theorem row_sync_witness:
  "closest fresh Tr 4 = [3] \<and> has_class fresh 4 ''togglevisible'' \<and>
   \<not> is_checked fresh 4 \<and> \<not> has_class fresh 3 ''ignore'' \<and>
   has_class (UpdateRow fresh 4) 3 ''ignore'' \<and>
   changeB flat fresh 4 = UpdateRow fresh 4 \<and>
   changeA 0 flat fresh 4 = Some (UpdateRow fresh 4) \<and>
   has_class (initB flat fresh) 3 ''ignore'' \<and>
   initA 2 flat fresh \<noteq> None \<and>
   has_class (the (initA 2 flat fresh)) 3 ''ignore''"
proof -
  have l: "4 < length fresh" by code_simp
  have c: "has_class fresh 4 ''togglevisible''" by code_simp
  have r: "closest fresh Tr 4 = [3]" by code_simp
  have a: "alone HUpdateRow fresh 4" by code_simp
  have o: "\<forall>x \<in> set (select_class fresh ''togglevisible''). closest fresh Tr x = [3] \<longrightarrow> x = 4"
    by code_simp
  have s: "sections_settle fresh" by code_simp
  have b: "\<not> is_checked fresh 4" "\<not> has_class fresh 3 ''ignore''" by code_simp+
  have k: "\<not> is_checked (UpdateRow fresh 4) 4" "\<not> is_checked (initB flat fresh) 4"
    "\<not> is_checked (the (initA 2 flat fresh)) 4"
    by code_simp+
  note inst = row_sync [OF l c r, of flat]
  from inst have 1: "has_class (UpdateRow fresh 4) 3 ''ignore'' \<longleftrightarrow> \<not> is_checked (UpdateRow fresh 4) 4"
    by (rule conjunct1)
  from inst a have 2: "changeB flat fresh 4 = UpdateRow fresh 4"
    "changeA 0 flat fresh 4 = Some (UpdateRow fresh 4)"
    by blast+
  from inst o have 3: "has_class (initB flat fresh) 3 ''ignore'' \<longleftrightarrow> \<not> is_checked (initB flat fresh) 4"
    and 4: "\<And>e. initA 2 flat fresh = Some e \<Longrightarrow>
              (has_class e 3 ''ignore'' \<longleftrightarrow> \<not> is_checked e 4)"
    by blast+
  from inst s have "initA (Suc (Suc 0)) flat fresh \<noteq> None" by blast
  then have ne: "initA 2 flat fresh \<noteq> None" by (simp add: numeral_2_eq_2)
  then obtain e where e: "initA 2 flat fresh = Some e" by blast
  from 4 [OF e] k(3) e have "has_class (the (initA 2 flat fresh)) 3 ''ignore''" by simp
  with r c b 1 k(1) 2 3 k(2) ne show ?thesis by blast
qed

text \<open>
  C5. As stated the claim fails: in \<open>shared_table\<close> two section toggles share a table,
  and after the ready callback the table follows the second, checked one, so it lacks
  \<^verbatim>\<open>ignore\<close> although the first is unchecked.
\<close>

theorem section_sync_shared_table:
  "tag (shared_table ! 2) = Input_Checkbox \<and> has_class shared_table 2 ''togglesection'' \<and>
   closest shared_table Table 2 = [0] \<and>
   initA 0 flat shared_table \<noteq> None \<and>
   \<not> is_checked (the (initA 0 flat shared_table)) 2 \<and>
   \<not> has_class (the (initA 0 flat shared_table)) 0 ''ignore''"
  by code_simp

text \<open>
  C5, amended. In the first copy let \<open>c\<close> carry the class \<^verbatim>\<open>togglesection\<close> and let \<open>T\<close>
  be its closest table. Right after the section handler has run for \<open>c\<close>, \<open>T\<close> has the
  class \<^verbatim>\<open>ignore\<close> exactly when \<open>c\<close> is unchecked; where that handler is all a change
  event at \<open>c\<close> runs, this is the state after the event. If \<open>c\<close> is the only element
  with the class whose closest table is \<open>T\<close>, the same holds whenever
  \<^verbatim>\<open>$('.togglesection').change()\<close>, the ready callback or a change event at \<open>c\<close>
  returns; they return under the condition of C1.
\<close>

theorem section_sync:
  assumes "c < length d" and "has_class d c ''togglesection''" and "closest d Table c = [T]"
  shows
    "(has_class (toggleSection d c) T ''ignore'' \<longleftrightarrow> \<not> is_checked (toggleSection d c) c) \<and>
     (alone HToggleSection d c \<longrightarrow> (\<forall>k. changeA k sh d c = Some (toggleSection d c))) \<and>
     ((\<forall>x \<in> set (select_class d ''togglesection''). closest d Table x = [T] \<longrightarrow> x = c) \<longrightarrow>
        (\<forall>k e. init_sections k sh d = Some e \<longrightarrow>
           (has_class e T ''ignore'' \<longleftrightarrow> \<not> is_checked e c)) \<and>
        (\<forall>k e. initA k sh d = Some e \<longrightarrow> (has_class e T ''ignore'' \<longleftrightarrow> \<not> is_checked e c)) \<and>
        (\<forall>k e. changeA k sh d c = Some e \<longrightarrow> (has_class e T ''ignore'' \<longleftrightarrow> \<not> is_checked e c))) \<and>
     (\<forall>k. init_sections (Suc (Suc k)) sh d \<noteq> None \<longleftrightarrow> sections_settle d) \<and>
     (\<forall>k. initA (Suc (Suc k)) sh d \<noteq> None \<longleftrightarrow> sections_settle d)"
proof (intro conjI impI allI)
  from assms(3) have Tin: "T \<in> set (closest d Table c)" by simp
  from closest_less [OF Tin assms(1)] have Tl: "T < length d" .
  from has_class_toggleSection_table [OF Tin Tl]
  show "has_class (toggleSection d c) T ''ignore'' \<longleftrightarrow> \<not> is_checked (toggleSection d c) c"
    by simp
next
  fix k assume "alone HToggleSection d c"
  then show "changeA k sh d c = Some (toggleSection d c)" by (simp add: changeA_alone)
next
  assume "\<forall>x \<in> set (select_class d ''togglesection''). closest d Table x = [T] \<longrightarrow> x = c"
  with assms have s: "sole HToggleSection Table ''togglesection'' d c T"
    by (simp add: sole_def writer_def)
  fix k e
  { assume "init_sections k sh d = Some e"
    from sole_init_sections [OF s refl this]
    show "has_class e T ''ignore'' \<longleftrightarrow> \<not> is_checked e c" . }
  { assume "initA k sh d = Some e"
    from sole_initA [OF s this]
    show "has_class e T ''ignore'' \<longleftrightarrow> \<not> is_checked e c" . }
  { assume "changeA k sh d c = Some e"
    from sole_changeA [OF s this]
    show "has_class e T ''ignore'' \<longleftrightarrow> \<not> is_checked e c" . }
next
  fix k show "init_sections (Suc (Suc k)) sh d \<noteq> None \<longleftrightarrow> sections_settle d"
    by (rule init_sections_returns)
next
  fix k show "initA (Suc (Suc k)) sh d \<noteq> None \<longleftrightarrow> sections_settle d"
    by (rule initA_returns)
qed

theorem section_sync_witness:
  "closest fresh Table 2 = [0] \<and> has_class fresh 2 ''togglesection'' \<and>
   \<not> is_checked fresh 2 \<and> \<not> has_class fresh 0 ''ignore'' \<and>
   has_class (toggleSection fresh 2) 0 ''ignore'' \<and>
   changeA 0 flat fresh 2 = Some (toggleSection fresh 2) \<and>
   initA 2 flat fresh \<noteq> None \<and>
   has_class (the (initA 2 flat fresh)) 0 ''ignore''"
proof -
  have l: "2 < length fresh" by code_simp
  have c: "has_class fresh 2 ''togglesection''" by code_simp
  have r: "closest fresh Table 2 = [0]" by code_simp
  have a: "alone HToggleSection fresh 2" by code_simp
  have o: "\<forall>x \<in> set (select_class fresh ''togglesection''). closest fresh Table x = [0] \<longrightarrow> x = 2"
    by code_simp
  have s: "sections_settle fresh" by code_simp
  have b: "\<not> is_checked fresh 2" "\<not> has_class fresh 0 ''ignore''" by code_simp+
  have k: "\<not> is_checked (toggleSection fresh 2) 2" "\<not> is_checked (the (initA 2 flat fresh)) 2"
    by code_simp+
  note inst = section_sync [OF l c r, of flat]
  from inst have 1: "has_class (toggleSection fresh 2) 0 ''ignore''
                       \<longleftrightarrow> \<not> is_checked (toggleSection fresh 2) 2"
    by (rule conjunct1)
  from inst a have 2: "changeA 0 flat fresh 2 = Some (toggleSection fresh 2)"
    by blast
  from inst o have 4: "\<And>e. initA 2 flat fresh = Some e \<Longrightarrow>
              (has_class e 0 ''ignore'' \<longleftrightarrow> \<not> is_checked e 2)"
    by blast
  from inst s have "initA (Suc (Suc 0)) flat fresh \<noteq> None" by blast
  then have ne: "initA 2 flat fresh \<noteq> None" by (simp add: numeral_2_eq_2)
  then obtain e where e: "initA 2 flat fresh = Some e" by blast
  from 4 [OF e] k(2) e have "has_class (the (initA 2 flat fresh)) 0 ''ignore''" by simp
  with r c b 1 k(1) 2 ne show ?thesis by blast
qed

section \<open>The two copies\<close>

text \<open>
  C4. The two copies differ on the children toggle. In \<open>two_rows\<close> the change event at
  the toggle is the handler alone in both copies. The second copy leaves both row
  checkboxes unchecked and both rows without \<^verbatim>\<open>ignore\<close>; nothing else runs, and the row
  is only put right by a later event, such as a change event at the row checkbox. The
  first copy returns with both rows carrying \<^verbatim>\<open>ignore\<close>.
\<close>

theorem copies_differ:
  "alone HToggleChildren two_rows 2 \<and>
   toggle_targets two_rows 2 = [4, 6] \<and>
   closest two_rows Tr 4 = [3] \<and> closest two_rows Tr 6 = [5] \<and>
   (\<forall>sh. changeB sh two_rows 2 = toggleChildrenB two_rows 2) \<and>
   (\<forall>sh k. changeA k sh two_rows 2 = toggleChildrenA k sh two_rows 2) \<and>
   \<not> is_checked (toggleChildrenB two_rows 2) 4 \<and>
   \<not> has_class (toggleChildrenB two_rows 2) 3 ''ignore'' \<and>
   \<not> is_checked (toggleChildrenB two_rows 2) 6 \<and>
   \<not> has_class (toggleChildrenB two_rows 2) 5 ''ignore'' \<and>
   (\<forall>sh k. \<exists>e. toggleChildrenA (Suc k) sh two_rows 2 = Some e \<and>
      \<not> is_checked e 4 \<and> has_class e 3 ''ignore'' \<and>
      \<not> is_checked e 6 \<and> has_class e 5 ''ignore'' \<and>
      e \<noteq> toggleChildrenB two_rows 2) \<and>
   (\<forall>sh. has_class (changeB sh (toggleChildrenB two_rows 2) 4) 3 ''ignore'')"
proof (intro conjI allI)
  show a: "alone HToggleChildren two_rows 2" by code_simp
  show "toggle_targets two_rows 2 = [4, 6]" by code_simp
  show "closest two_rows Tr 4 = [3]" "closest two_rows Tr 6 = [5]" by code_simp+
  show B: "\<not> is_checked (toggleChildrenB two_rows 2) 4"
    "\<not> has_class (toggleChildrenB two_rows 2) 3 ''ignore''"
    "\<not> is_checked (toggleChildrenB two_rows 2) 6"
    "\<not> has_class (toggleChildrenB two_rows 2) 5 ''ignore''"
    by code_simp+
  fix sh
  from a show "changeB sh two_rows 2 = toggleChildrenB two_rows 2"
    by (simp add: changeB_alone)
  have a4: "alone HUpdateRow (toggleChildrenB two_rows 2) 4" by code_simp
  have "has_class (UpdateRow (toggleChildrenB two_rows 2) 4) 3 ''ignore''" by code_simp
  with a4 show "has_class (changeB sh (toggleChildrenB two_rows 2) 4) 3 ''ignore''"
    by (simp add: changeB_alone)
  fix k
  from a show "changeA k sh two_rows 2 = toggleChildrenA k sh two_rows 2"
    by (simp add: changeA_alone toggleChildrenA_def)
  from two_rows_scenario [of k sh] obtain e where
    e: "toggleChildrenA (Suc k) sh two_rows 2 = Some e" "\<not> is_checked e 4"
      "\<not> is_checked e 6" "has_class e 3 ''ignore''" "has_class e 5 ''ignore''"
    by blast
  from e(4) B(2) have "e \<noteq> toggleChildrenB two_rows 2" by auto
  with e show "\<exists>e. toggleChildrenA (Suc k) sh two_rows 2 = Some e \<and>
      \<not> is_checked e 4 \<and> has_class e 3 ''ignore'' \<and>
      \<not> is_checked e 6 \<and> has_class e 5 ''ignore'' \<and>
      e \<noteq> toggleChildrenB two_rows 2"
    by blast
qed

theorem copies_differ_witness:
  "changeB flat two_rows 2 = toggleChildrenB two_rows 2 \<and>
   \<not> is_checked (changeB flat two_rows 2) 4 \<and>
   \<not> has_class (changeB flat two_rows 2) 3 ''ignore'' \<and>
   changeA 1 flat two_rows 2 \<noteq> None \<and>
   \<not> is_checked (the (changeA 1 flat two_rows 2)) 4 \<and>
   has_class (the (changeA 1 flat two_rows 2)) 3 ''ignore''"
proof -
  from copies_differ have b: "changeB flat two_rows 2 = toggleChildrenB two_rows 2"
    and a: "changeA 1 flat two_rows 2 = toggleChildrenA 1 flat two_rows 2"
    and s: "\<not> is_checked (toggleChildrenB two_rows 2) 4"
      "\<not> has_class (toggleChildrenB two_rows 2) 3 ''ignore''"
    and e: "\<exists>e. toggleChildrenA (Suc 0) flat two_rows 2 = Some e \<and>
      \<not> is_checked e 4 \<and> has_class e 3 ''ignore'' \<and>
      \<not> is_checked e 6 \<and> has_class e 5 ''ignore'' \<and>
      e \<noteq> toggleChildrenB two_rows 2"
    by blast+
  from e obtain e' where "toggleChildrenA 1 flat two_rows 2 = Some e'"
    "\<not> is_checked e' 4" "has_class e' 3 ''ignore''"
    by auto
  with a b s show ?thesis by simp
qed

section \<open>Text areas\<close>

text \<open>
  C6. \<^verbatim>\<open>update\<close> first sets the inline height of the text area to \<^verbatim>\<open>1em\<close>, reads
  \<^verbatim>\<open>scrollHeight\<close> in the document so changed, and leaves the inline height at exactly
  that many pixels, touching nothing else. The same height results from a key event
  at the text area, from a change event where \<^verbatim>\<open>update\<close> is all it runs, and from a
  resize of the window, where the text areas before it in the document have been
  updated first; the ready callback ends with the same loop as a resize.
\<close>

theorem textarea_update:
  assumes "n < length d" and "tag (d ! n) = Textarea"
  shows
    "style_height (css_height (Em 1) [n] d ! n) = Some (Em 1) \<and>
     style_height (update sh d n ! n) = Some (Px (sh (css_height (Em 1) [n] d) n)) \<and>
     update sh d n = d[n := (d ! n)\<lparr>style_height := Some (Px (sh (css_height (Em 1) [n] d) n))\<rparr>] \<and>
     style_height (key_event sh d n ! n) = Some (Px (sh (css_height (Em 1) [n] d) n)) \<and>
     (alone HUpdate d n \<longrightarrow>
        changeB sh d n = update sh d n \<and> (\<forall>k. changeA k sh d n = Some (update sh d n))) \<and>
     (\<forall>xs ys. select_tag d Textarea = xs @ n # ys \<longrightarrow>
        style_height (resize sh d ! n)
          = Some (Px (sh (css_height (Em 1) [n] (fold (\<lambda>y e. update sh e y) xs d)) n))) \<and>
     init_textareas sh d = resize sh d \<and>
     initB sh d = resize sh (init_rows d) \<and>
     (\<forall>k. initA k sh d = map_option (resize sh) (init_sections k sh (init_rows d)))"
proof (intro conjI impI allI)
  from assms(1) show "style_height (css_height (Em 1) [n] d ! n) = Some (Em 1)"
    by (simp add: nth_css_height)
  from assms(1) show "style_height (update sh d n ! n) = Some (Px (sh (css_height (Em 1) [n] d) n))"
    by (simp add: nth_update)
  show "update sh d n = d[n := (d ! n)\<lparr>style_height := Some (Px (sh (css_height (Em 1) [n] d) n))\<rparr>]"
    by (rule nth_equalityI) (auto simp: nth_update nth_list_update)
  from assms show "style_height (key_event sh d n ! n) = Some (Px (sh (css_height (Em 1) [n] d) n))"
    by (rule key_event_height)
next
  assume "alone HUpdate d n"
  then show "changeB sh d n = update sh d n" by (simp add: changeB_alone)
next
  fix k assume "alone HUpdate d n"
  then show "changeA k sh d n = Some (update sh d n)" by (simp add: changeA_alone)
next
  fix xs ys assume "select_tag d Textarea = xs @ n # ys"
  then show "style_height (resize sh d ! n)
          = Some (Px (sh (css_height (Em 1) [n] (fold (\<lambda>y e. update sh e y) xs d)) n))"
    by (rule resize_height)
next
  show "init_textareas sh d = resize sh d" by (simp add: init_textareas_def resize_def)
  show "initB sh d = resize sh (init_rows d)"
    by (simp add: initB_def init_textareas_def resize_def)
  fix k show "initA k sh d = map_option (resize sh) (init_sections k sh (init_rows d))"
    by (simp add: initA_def init_textareas_def resize_def split: option.splits)
qed

theorem textarea_update_witness:
  "tag (fresh ! 7) = Textarea \<and> select_tag fresh Textarea = [7] \<and>
   style_height (fresh ! 7) = None \<and>
   collapsing fresh 7 = 200 \<and>
   style_height (update collapsing fresh 7 ! 7) = Some (Px 34) \<and>
   style_height (key_event collapsing fresh 7 ! 7) = Some (Px 34) \<and>
   changeB collapsing fresh 7 = update collapsing fresh 7 \<and>
   changeA 0 collapsing fresh 7 = Some (update collapsing fresh 7) \<and>
   style_height (resize collapsing fresh ! 7) = Some (Px 34) \<and>
   style_height (initB collapsing fresh ! 7) = Some (Px 34) \<and>
   style_height (the (initA 0 collapsing fresh) ! 7) = Some (Px 34)"
proof -
  have l: "7 < length fresh" by code_simp
  have t: "tag (fresh ! 7) = Textarea" by code_simp
  have a: "alone HUpdate fresh 7" by code_simp
  have s: "select_tag fresh Textarea = [] @ 7 # []" by code_simp
  have m: "collapsing (css_height (Em 1) [7] fresh) 7 = 34" "collapsing fresh 7 = 200"
    "style_height (fresh ! 7) = None"
    by code_simp+
  note inst = textarea_update [OF l t, of collapsing]
  from inst have u: "style_height (update collapsing fresh 7 ! 7)
      = Some (Px (collapsing (css_height (Em 1) [7] fresh) 7))"
    and ke: "style_height (key_event collapsing fresh 7 ! 7)
      = Some (Px (collapsing (css_height (Em 1) [7] fresh) 7))"
    by blast+
  from u ke have 1: "style_height (update collapsing fresh 7 ! 7) = Some (Px 34)"
    "style_height (key_event collapsing fresh 7 ! 7) = Some (Px 34)"
    by (simp_all only: m(1))
  from inst a have 2: "changeB collapsing fresh 7 = update collapsing fresh 7"
    "changeA 0 collapsing fresh 7 = Some (update collapsing fresh 7)"
    by blast+
  from inst s have "style_height (resize collapsing fresh ! 7)
      = Some (Px (collapsing (css_height (Em 1) [7] (fold (\<lambda>y e. update collapsing e y) [] fresh)) 7))"
    by blast
  with m have 3: "style_height (resize collapsing fresh ! 7) = Some (Px 34)" by simp
  have 4: "style_height (initB collapsing fresh ! 7) = Some (Px 34)"
    "style_height (the (initA 0 collapsing fresh) ! 7) = Some (Px 34)"
    by code_simp+
  from t s m 1 2 3 4 show ?thesis by simp
qed

end
